theory Spec2Isabelle
  imports Complex_Main "HOL-Library.Char_ord" "HOL-Library.List_Lexorder" "HOL-Library.Multiset"
begin

section \<open>Smart-Feed v9: a shallow embedding of the optimizer\<close>

text \<open>
  The Python package \<^verbatim>\<open>smart_feed_v9\<close> is embedded function by function.
  Python floats are modelled as exact reals (so every statement below is a statement
  about the program in exact arithmetic), Python ints as \<^typ>\<open>int\<close>, dictionaries
  as association lists in insertion order, \<^verbatim>\<open>frozenset\<close> keys as sets, and
  every exception the source can raise as a value \<open>Inl e\<close> of a sum type.
\<close>

datatype py_error = ZeroDivisionError | KeyError | ValueError | TypeError

subsection \<open>ratios.py\<close>

text \<open>\<^verbatim>\<open>itertools.product(xs, repeat=n)\<close>: the first component varies slowest.\<close>

fun product_repeat :: "'a list \<Rightarrow> nat \<Rightarrow> 'a list list" where
  "product_repeat xs 0 = [[]]"
| "product_repeat xs (Suc n) = concat (map (\<lambda>x. map ((#) x) (product_repeat xs n)) xs)"

text \<open>\<^verbatim>\<open>reduce(gcd, combo)\<close> without an initial value: TypeError on the empty tuple.\<close>

definition reduce_gcd :: "int list \<Rightarrow> py_error + int" where
  "reduce_gcd combo =
     (case combo of [] \<Rightarrow> Inl TypeError | x # xs \<Rightarrow> Inr (fold (\<lambda>b acc. gcd acc b) xs x))"

text \<open>The body of the \<^verbatim>\<open>for combo in product(...)\<close> loop of \<^verbatim>\<open>generate_ratios\<close>.\<close>

fun ratio_loop :: "int \<Rightarrow> int list list \<Rightarrow> py_error + int list list" where
  "ratio_loop max_sum [] = Inr []"
| "ratio_loop max_sum (combo # rest) =
     (if sum_list combo > max_sum then ratio_loop max_sum rest
      else case reduce_gcd combo of
        Inl e \<Rightarrow> Inl e
      | Inr g \<Rightarrow>
          (if g \<noteq> 1 then ratio_loop max_sum rest
           else case ratio_loop max_sum rest of
             Inl e \<Rightarrow> Inl e
           | Inr results \<Rightarrow> Inr (combo # results)))"

definition generate_ratios :: "nat \<Rightarrow> int \<Rightarrow> py_error + int list list" where
  "generate_ratios n_streams max_sum =
     (if n_streams = 1 then Inr [[1]]
      else let upper = max_sum - int n_streams + 1
           in ratio_loop max_sum (product_repeat [1..upper] n_streams))"

text \<open>What the specification calls a valid ratio vector.\<close>

definition valid_ratio :: "nat \<Rightarrow> int \<Rightarrow> int list \<Rightarrow> bool" where
  "valid_ratio n max_sum v \<longleftrightarrow>
     length v = n \<and> list_all (\<lambda>x. 0 < x) v \<and> sum_list v \<le> max_sum \<and> Gcd (set v) = 1"

subsection \<open>Python helpers\<close>

text \<open>Float division raises on a zero divisor.\<close>

definition fdiv :: "real \<Rightarrow> real \<Rightarrow> py_error + real" where
  "fdiv x y = (if y = 0 then Inl ZeroDivisionError else Inr (x / y))"

definition ebind :: "'e + 'a \<Rightarrow> ('a \<Rightarrow> 'e + 'b) \<Rightarrow> 'e + 'b" where
  "ebind m f = (case m of Inl e \<Rightarrow> Inl e | Inr x \<Rightarrow> f x)"

text \<open>Evaluate a list of fallible computations left to right; the first exception wins.\<close>

fun sequence_err :: "('e + 'a) list \<Rightarrow> 'e + 'a list" where
  "sequence_err [] = Inr []"
| "sequence_err (m # ms) =
     (case m of
        Inl e \<Rightarrow> Inl e
      | Inr x \<Rightarrow> (case sequence_err ms of Inl e \<Rightarrow> Inl e | Inr xs \<Rightarrow> Inr (x # xs)))"

text \<open>\<^verbatim>\<open>d[k] = v\<close> on a dict kept in insertion order, and \<^verbatim>\<open>d[k]\<close>.\<close>

fun dict_set :: "('k \<times> 'v) list \<Rightarrow> 'k \<Rightarrow> 'v \<Rightarrow> ('k \<times> 'v) list" where
  "dict_set [] k v = [(k, v)]"
| "dict_set ((k', v') # d) k v = (if k' = k then (k, v) # d else (k', v') # dict_set d k v)"

definition dict_get :: "('k \<times> 'v) list \<Rightarrow> 'k \<Rightarrow> py_error + 'v" where
  "dict_get d k = (case map_of d k of None \<Rightarrow> Inl KeyError | Some v \<Rightarrow> Inr v)"

text \<open>\<^verbatim>\<open>dict(pairs)\<close> and dict comprehensions: later pairs overwrite earlier ones.\<close>

definition dict_of :: "('k \<times> 'v) list \<Rightarrow> ('k \<times> 'v) list" where
  "dict_of pairs = fold (\<lambda>(k, v) d. dict_set d k v) pairs []"

text \<open>\<^verbatim>\<open>itertools.combinations(xs, k)\<close>, in its lexicographic order of positions.\<close>

fun combinations :: "'a list \<Rightarrow> nat \<Rightarrow> 'a list list" where
  "combinations xs 0 = [[]]"
| "combinations [] (Suc k) = []"
| "combinations (x # xs) (Suc k) = map ((#) x) (combinations xs k) @ combinations xs (Suc k)"

text \<open>\<^verbatim>\<open>round(x, 0)\<close>: to the nearest integer, ties to the even one.\<close>

definition py_round :: "real \<Rightarrow> int" where
  "py_round x =
     (let f = \<lfloor>x\<rfloor>; d = x - of_int f
      in if d < 1 / 2 then f else if 1 / 2 < d then f + 1 else if even f then f else f + 1)"

text \<open>A float that may be \<^verbatim>\<open>float("inf")\<close>.\<close>

datatype xreal = Fin real | PInf

fun xadd :: "real \<Rightarrow> xreal \<Rightarrow> xreal" where
  "xadd a (Fin b) = Fin (a + b)"
| "xadd a PInf = PInf"

fun xless :: "xreal \<Rightarrow> xreal \<Rightarrow> bool" where
  "xless (Fin a) (Fin b) \<longleftrightarrow> a < b"
| "xless (Fin a) PInf \<longleftrightarrow> True"
| "xless PInf b \<longleftrightarrow> False"

fun real_ge :: "real \<Rightarrow> xreal \<Rightarrow> bool" where
  "real_ge a (Fin b) \<longleftrightarrow> b \<le> a"
| "real_ge a PInf \<longleftrightarrow> False"

subsection \<open>models.py\<close>

record WasteStream =
  stream_id :: string
  quantity_L :: real
  btu_per_lb :: real
  pH :: real
  f_ppm :: real
  solid_pct :: real
  salt_ppm :: real
  moisture_pct :: real

record SystemConfig =
  F_total :: real
  P_system :: real
  BTU_diesel :: real
  eta :: real
  BTU_target :: real
  solid_max_pct :: real
  pH_min :: real
  pH_max :: real
  salt_max_ppm :: real
  K_F_TO_ACID :: real
  K_PH_TO_BASE :: real
  K_ACID_TO_NAOH_VOL :: real
  cost_diesel_per_L :: real
  cost_naoh_per_L :: real
  cost_water_per_L :: real
  cost_electricity_per_kWh :: real
  cost_labor_per_hr :: real
  ratio_sum_max :: int
  W_min :: real

text \<open>\<^verbatim>\<open>SystemConfig()\<close> with every default of the dataclass.\<close>

definition default_config :: SystemConfig where
  "default_config = \<lparr>
     F_total = 11, P_system = 400, BTU_diesel = 18300, eta = 89 / 100,
     BTU_target = 2200, solid_max_pct = 15, pH_min = 6, pH_max = 9, salt_max_ppm = 5000,
     K_F_TO_ACID = 53 / 1000, K_PH_TO_BASE = 50, K_ACID_TO_NAOH_VOL = 828 / 10000000,
     cost_diesel_per_L = 1, cost_naoh_per_L = 151 / 100, cost_water_per_L = 199 / 100000,
     cost_electricity_per_kWh = 12 / 100, cost_labor_per_hr = 100,
     ratio_sum_max = 11, W_min = 1 / 2 \<rparr>"

record BlendProperties =
  bp_btu_per_lb :: real
  bp_pH :: real
  bp_f_ppm :: real
  bp_solid_pct :: real
  bp_salt_ppm :: real

record PhaseResult =
  streams :: "(string \<times> int) list"
  blend_props :: BlendProperties
  r_water :: real
  r_diesel :: real
  r_naoh :: real
  r_ext :: real
  W :: real
  runtime_min :: real
  Q_phase :: real
  cost_diesel :: real
  cost_naoh :: real
  cost_water :: real
  cost_electricity :: real
  cost_labor :: real
  cost_total :: real

record Schedule =
  phases :: "PhaseResult list"
  total_cost :: real
  total_runtime_min :: real

subsection \<open>blending.py\<close>

definition blend_linear :: "real list \<Rightarrow> int list \<Rightarrow> real" where
  "blend_linear values ratios =
     (let total = sum_list ratios
      in if total = 0 then 0
         else (\<Sum>(v, r) \<leftarrow> zip values ratios. v * of_int r) / of_int total)"

definition blend_pH :: "real list \<Rightarrow> int list \<Rightarrow> real" where
  "blend_pH pH_values ratios =
     (let total = sum_list ratios
      in if total = 0 then 7
         else let h_concentration =
                (\<Sum>(p, ratio) \<leftarrow> zip pH_values ratios. (10 powr (- p)) * of_int ratio) / of_int total
              in if h_concentration \<le> 0 then 14 else - log 10 h_concentration)"

definition calc_blend_properties :: "WasteStream list \<Rightarrow> int list \<Rightarrow> BlendProperties" where
  "calc_blend_properties ss ratios = \<lparr>
     bp_btu_per_lb = blend_linear (map btu_per_lb ss) ratios,
     bp_pH = blend_pH (map pH ss) ratios,
     bp_f_ppm = blend_linear (map f_ppm ss) ratios,
     bp_solid_pct = blend_linear (map solid_pct ss) ratios,
     bp_salt_ppm = blend_linear (map salt_ppm ss) ratios \<rparr>"

subsection \<open>gatekeeper.py\<close>

definition calc_r_water :: "BlendProperties \<Rightarrow> SystemConfig \<Rightarrow> py_error + real" where
  "calc_r_water blend cfg =
     ebind (fdiv (bp_solid_pct blend) (solid_max_pct cfg)) (\<lambda>q_solid.
     ebind (fdiv (bp_salt_ppm blend) (salt_max_ppm cfg)) (\<lambda>q_salt.
       let r_solid = max 0 (q_solid - 1); r_salt = max 0 (q_salt - 1)
       in Inr (max r_solid r_salt)))"

definition calc_r_diesel :: "BlendProperties \<Rightarrow> real \<Rightarrow> SystemConfig \<Rightarrow> py_error + real" where
  "calc_r_diesel blend rw cfg =
     ebind (fdiv (bp_btu_per_lb blend) (1 + rw)) (\<lambda>BTU_eff.
     ebind (fdiv (BTU_target cfg - BTU_eff) (BTU_diesel cfg * eta cfg)) (\<lambda>q.
       Inr (max 0 q)))"

definition calc_r_naoh :: "BlendProperties \<Rightarrow> SystemConfig \<Rightarrow> real" where
  "calc_r_naoh blend cfg =
     (let acid_load = bp_f_ppm blend * K_F_TO_ACID cfg;
          base_load = max 0 (bp_pH blend - 7) * K_PH_TO_BASE cfg;
          net_acid = max 0 (acid_load - base_load)
      in net_acid * K_ACID_TO_NAOH_VOL cfg)"

definition gatekeeper :: "BlendProperties \<Rightarrow> SystemConfig \<Rightarrow> py_error + real \<times> real \<times> real" where
  "gatekeeper blend cfg =
     ebind (calc_r_water blend cfg) (\<lambda>rw.
     ebind (calc_r_diesel blend rw cfg) (\<lambda>rd.
       Inr (rw, rd, calc_r_naoh blend cfg)))"

definition calc_throughput :: "real \<Rightarrow> real \<Rightarrow> real \<Rightarrow> SystemConfig \<Rightarrow> py_error + real" where
  "calc_throughput rw rd rn cfg = (let rext = rw + rd + rn in fdiv (F_total cfg) (1 + rext))"

text \<open>The dict returned by \<^verbatim>\<open>calc_phase_cost\<close>, one field per key.\<close>

record PhaseCost =
  c_diesel :: real
  c_naoh :: real
  c_water :: real
  c_electricity :: real
  c_labor :: real
  c_total :: real

definition calc_phase_cost ::
  "real \<Rightarrow> real \<Rightarrow> real \<Rightarrow> real \<Rightarrow> real \<Rightarrow> SystemConfig \<Rightarrow> PhaseCost" where
  "calc_phase_cost w rw rd rn rt_min cfg =
     (let runtime_hr = rt_min / 60;
          cd = w * rd * rt_min * cost_diesel_per_L cfg;
          cn = w * rn * rt_min * cost_naoh_per_L cfg;
          cw = w * rw * rt_min * cost_water_per_L cfg;
          ce = P_system cfg * runtime_hr * cost_electricity_per_kWh cfg;
          cl = runtime_hr * cost_labor_per_hr cfg
      in \<lparr> c_diesel = cd, c_naoh = cn, c_water = cw, c_electricity = ce, c_labor = cl,
            c_total = cd + cn + cw + ce + cl \<rparr>)"

subsection \<open>search.py: phase templates\<close>

definition MAX_TEMPLATES_PER_SUBSET :: nat where
  "MAX_TEMPLATES_PER_SUBSET = 30"

definition ACTIVE_THRESHOLD_L :: real where
  "ACTIVE_THRESHOLD_L = 1 / 2"

record PhaseTemplate =
  stream_ids :: "string list"
  ratios :: "int list"
  blend :: BlendProperties
  t_r_water :: real
  t_r_diesel :: real
  t_r_naoh :: real
  t_r_ext :: real
  t_W :: real
  cost_per_batch :: real
  sum_ratios :: int

type_synonym templates_index = "(string set \<times> PhaseTemplate list) list"

text \<open>
  One pass of the innermost loop of \<^verbatim>\<open>_precompute_templates\<close>: \<open>Inr None\<close> is
  \<^verbatim>\<open>continue\<close> after an infeasible combination.
\<close>

definition eval_template ::
  "SystemConfig \<Rightarrow> real \<Rightarrow> string list \<Rightarrow> WasteStream list \<Rightarrow> int list
    \<Rightarrow> py_error + PhaseTemplate option" where
  "eval_template cfg fixed_cost_per_min comb subset_streams rs =
     (let b = calc_blend_properties subset_streams rs
      in if pH_max cfg < bp_pH b then Inr None
         else
           ebind (gatekeeper b cfg) (\<lambda>(rw, rd, rn).
           ebind (calc_throughput rw rd rn cfg) (\<lambda>w.
             if w < W_min cfg then Inr None
             else
               let sr = sum_list rs;
                   material_cost_per_min =
                     w * (rd * cost_diesel_per_L cfg + rn * cost_naoh_per_L cfg
                          + rw * cost_water_per_L cfg);
                   cost_rate_per_min = material_cost_per_min + fixed_cost_per_min
               in ebind (fdiv (of_int sr) w) (\<lambda>q.
                    Inr (Some \<lparr> stream_ids = comb, ratios = rs, blend = b,
                                t_r_water = rw, t_r_diesel = rd, t_r_naoh = rn,
                                t_r_ext = rw + rd + rn, t_W = w,
                                cost_per_batch = q * cost_rate_per_min,
                                sum_ratios = sr \<rparr>)))))"

text \<open>\<^verbatim>\<open>for ratios in ratios_list\<close>, threading \<^verbatim>\<open>templates\<close>, \<^verbatim>\<open>n_total\<close>, \<^verbatim>\<open>n_infeasible\<close>.\<close>

fun ratios_loop ::
  "SystemConfig \<Rightarrow> real \<Rightarrow> string list \<Rightarrow> WasteStream list \<Rightarrow> int list list
    \<Rightarrow> PhaseTemplate list \<times> nat \<times> nat \<Rightarrow> py_error + PhaseTemplate list \<times> nat \<times> nat" where
  "ratios_loop cfg fixed comb ss [] acc = Inr acc"
| "ratios_loop cfg fixed comb ss (rs # rest) (templates, n_total, n_infeasible) =
     (case eval_template cfg fixed comb ss rs of
        Inl e \<Rightarrow> Inl e
      | Inr None \<Rightarrow>
          ratios_loop cfg fixed comb ss rest (templates, n_total + 1, n_infeasible + 1)
      | Inr (Some t) \<Rightarrow>
          ratios_loop cfg fixed comb ss rest (templates @ [t], n_total + 1, n_infeasible))"

text \<open>The two outer loops, over every subset in the order \<^verbatim>\<open>combinations\<close> yields them.\<close>

fun subsets_loop ::
  "SystemConfig \<Rightarrow> real \<Rightarrow> (string \<times> WasteStream) list \<Rightarrow> (nat \<times> int list list) list
    \<Rightarrow> string list list \<Rightarrow> templates_index \<times> nat \<times> nat \<times> nat
    \<Rightarrow> py_error + templates_index \<times> nat \<times> nat \<times> nat" where
  "subsets_loop cfg fixed streams_map ratio_cache [] acc = Inr acc"
| "subsets_loop cfg fixed streams_map ratio_cache (comb # rest)
       (templates_by_subset, n_total, n_infeasible, n_feasible) =
     (case sequence_err (map (dict_get streams_map) comb) of
        Inl e \<Rightarrow> Inl e
      | Inr subset_streams \<Rightarrow>
          let ratios_list =
                (case map_of ratio_cache (length comb) of None \<Rightarrow> [[1]] | Some rl \<Rightarrow> rl)
          in case ratios_loop cfg fixed comb subset_streams ratios_list
                    ([], n_total, n_infeasible) of
               Inl e \<Rightarrow> Inl e
             | Inr (templates, n_total', n_infeasible') \<Rightarrow>
                 if templates \<noteq> [] then
                   let kept = take MAX_TEMPLATES_PER_SUBSET (sort_key cost_per_batch templates)
                   in subsets_loop cfg fixed streams_map ratio_cache rest
                        (dict_set templates_by_subset (set comb) kept,
                         n_total', n_infeasible', n_feasible + length kept)
                 else subsets_loop cfg fixed streams_map ratio_cache rest
                        (templates_by_subset, n_total', n_infeasible', n_feasible))"

definition all_subsets :: "string list \<Rightarrow> string list list" where
  "all_subsets all_ids = concat (map (combinations all_ids) [1..<length all_ids + 1])"

definition precompute_templates ::
  "WasteStream list \<Rightarrow> SystemConfig \<Rightarrow> (nat \<times> int list list) list
    \<Rightarrow> py_error + templates_index \<times> nat \<times> nat \<times> nat" where
  "precompute_templates strs cfg ratio_cache =
     (let streams_map = dict_of (map (\<lambda>s. (stream_id s, s)) strs);
          all_ids = sort (map fst streams_map);
          fixed_cost_per_min =
            (P_system cfg * cost_electricity_per_kWh cfg + cost_labor_per_hr cfg) / 60
      in subsets_loop cfg fixed_cost_per_min streams_map ratio_cache (all_subsets all_ids)
           ([], 0, 0, 0))"

subsection \<open>search.py: the recursive search\<close>

record SearchStats =
  evaluated :: nat
  pruned_infeasible :: nat
  templates_kept :: nat
  pruned_bound :: nat
  memo_hits :: nat

type_synonym inventory = "(string \<times> real) list"
type_synonym memo_key = "(string \<times> int) set"
type_synonym memo_table = "memo_key \<rightharpoonup> xreal \<times> PhaseResult list"
type_synonym candidate = "real \<times> PhaseTemplate \<times> real"

definition active_of :: "inventory \<Rightarrow> inventory" where
  "active_of invt = filter (\<lambda>(sid, qty). ACTIVE_THRESHOLD_L < qty) invt"

definition memo_key_of :: "inventory \<Rightarrow> memo_key" where
  "memo_key_of active = set (map (\<lambda>(sid, qty). (sid, py_round qty)) (sort_key fst active))"

text \<open>\<^verbatim>\<open>min(active[sid] / ratio for sid, ratio in zip(...))\<close>.\<close>

definition num_batches_of :: "inventory \<Rightarrow> PhaseTemplate \<Rightarrow> py_error + real" where
  "num_batches_of active tmpl =
     ebind (sequence_err
              (map (\<lambda>(sid, ratio). ebind (dict_get active sid) (\<lambda>q. fdiv q (of_int ratio)))
                   (zip (stream_ids tmpl) (ratios tmpl))))
       (\<lambda>qs. case qs of [] \<Rightarrow> Inl ValueError | q # qs' \<Rightarrow> Inr (fold min qs' q))"

definition collect_candidates :: "templates_index \<Rightarrow> inventory \<Rightarrow> py_error + candidate list" where
  "collect_candidates all_templates active =
     (let active_ids_set = set (map fst active)
      in ebind (sequence_err
                  (map (\<lambda>(subset_key, templates).
                          if \<not> subset_key \<subseteq> active_ids_set then Inr []
                          else sequence_err
                                 (map (\<lambda>tmpl. ebind (num_batches_of active tmpl)
                                          (\<lambda>nb. Inr (nb * cost_per_batch tmpl, tmpl, nb)))
                                      templates))
                       all_templates))
           (\<lambda>css. Inr (concat css)))"

text \<open>\<^verbatim>\<open>new_inv = dict(inv)\<close> followed by the loop assigning \<^verbatim>\<open>new_inv[sid]\<close>.\<close>

definition update_inventory ::
  "inventory \<Rightarrow> inventory \<Rightarrow> PhaseTemplate \<Rightarrow> real \<Rightarrow> py_error + inventory" where
  "update_inventory invt active tmpl nb =
     fold (\<lambda>(sid, ratio) acc.
             ebind acc (\<lambda>new_inv.
             ebind (dict_get active sid) (\<lambda>q.
               Inr (dict_set new_inv sid (q - of_int ratio * nb)))))
          (zip (stream_ids tmpl) (ratios tmpl)) (Inr invt)"

text \<open>The deferred construction of the \<^verbatim>\<open>PhaseResult\<close>.\<close>

definition make_phase :: "SystemConfig \<Rightarrow> PhaseTemplate \<Rightarrow> real \<Rightarrow> py_error + PhaseResult" where
  "make_phase cfg tmpl nb =
     (let q_phase = of_int (sum_ratios tmpl) * nb
      in ebind (fdiv q_phase (t_W tmpl)) (\<lambda>rt.
           let costs = calc_phase_cost (t_W tmpl) (t_r_water tmpl) (t_r_diesel tmpl)
                         (t_r_naoh tmpl) rt cfg
           in Inr \<lparr> streams = dict_of (zip (stream_ids tmpl) (ratios tmpl)),
                    blend_props = blend tmpl,
                    r_water = t_r_water tmpl, r_diesel = t_r_diesel tmpl,
                    r_naoh = t_r_naoh tmpl, r_ext = t_r_ext tmpl, W = t_W tmpl,
                    runtime_min = rt, Q_phase = q_phase,
                    cost_diesel = c_diesel costs, cost_naoh = c_naoh costs,
                    cost_water = c_water costs, cost_electricity = c_electricity costs,
                    cost_labor = c_labor costs, cost_total = c_total costs \<rparr>))"

text \<open>
  \<^verbatim>\<open>_search\<close> is \<open>search_node\<close>; its \<^verbatim>\<open>for ... in enumerate(candidates)\<close> loop is
  \<open>search_loop\<close>, which carries \<^verbatim>\<open>best_sub_cost\<close> and \<^verbatim>\<open>best_phases\<close>. The closure
  variables \<^verbatim>\<open>cfg\<close>, \<^verbatim>\<open>N\<close>, \<^verbatim>\<open>all_templates\<close> are parameters, and the mutable
  \<^verbatim>\<open>memo\<close> and \<^verbatim>\<open>stats\<close> are passed in and returned.
\<close>

function
  search_node ::
    "SystemConfig \<Rightarrow> nat \<Rightarrow> templates_index \<Rightarrow> inventory \<Rightarrow> nat
      \<Rightarrow> memo_table \<times> SearchStats
      \<Rightarrow> py_error + (xreal \<times> PhaseResult list) \<times> memo_table \<times> SearchStats"
and
  search_loop ::
    "SystemConfig \<Rightarrow> nat \<Rightarrow> templates_index \<Rightarrow> inventory \<Rightarrow> inventory \<Rightarrow> nat
      \<Rightarrow> candidate list \<Rightarrow> xreal \<times> PhaseResult list option
      \<Rightarrow> memo_table \<times> SearchStats
      \<Rightarrow> py_error + (xreal \<times> PhaseResult list option) \<times> memo_table \<times> SearchStats"
where
  "search_node cfg n all_templates invt depth (memo, stats) =
     (let active = active_of invt
      in if active = [] then Inr ((Fin 0, []), memo, stats)
         else if n < depth then Inr ((PInf, []), memo, stats)
         else
           let memo_key = memo_key_of active
           in case memo memo_key of
                Some cached \<Rightarrow> Inr (cached, memo, stats\<lparr>memo_hits := memo_hits stats + 1\<rparr>)
              | None \<Rightarrow>
                  (case collect_candidates all_templates active of
                     Inl e \<Rightarrow> Inl e
                   | Inr candidates \<Rightarrow>
                       (case search_loop cfg n all_templates invt active depth
                               (sort_key fst candidates) (PInf, None) (memo, stats) of
                          Inl e \<Rightarrow> Inl e
                        | Inr ((best_sub_cost, best_phases), memo', stats') \<Rightarrow>
                            let result =
                                  (case best_phases of
                                     Some ps \<Rightarrow> (best_sub_cost, ps)
                                   | None \<Rightarrow> (PInf, []))
                            in Inr (result, memo'(memo_key \<mapsto> result), stats'))))"
| "search_loop cfg n all_templates invt active depth [] best st = Inr (best, st)"
| "search_loop cfg n all_templates invt active depth ((cost, tmpl, num_batches) # rest)
       (best_sub_cost, best_phases) (memo, stats) =
     (if real_ge cost best_sub_cost then
        Inr ((best_sub_cost, best_phases), memo,
             stats\<lparr>pruned_bound := pruned_bound stats + length ((cost, tmpl, num_batches) # rest)\<rparr>)
      else
        case update_inventory invt active tmpl num_batches of
          Inl e \<Rightarrow> Inl e
        | Inr new_inv \<Rightarrow>
            (case search_node cfg n all_templates new_inv (depth + 1) (memo, stats) of
               Inl e \<Rightarrow> Inl e
             | Inr ((remaining_cost, remaining_phases), memo', stats') \<Rightarrow>
                 let total_from_here = xadd cost remaining_cost
                 in if xless total_from_here best_sub_cost then
                      (case make_phase cfg tmpl num_batches of
                         Inl e \<Rightarrow> Inl e
                       | Inr phase \<Rightarrow>
                           search_loop cfg n all_templates invt active depth rest
                             (total_from_here, Some (phase # remaining_phases)) (memo', stats'))
                    else
                      search_loop cfg n all_templates invt active depth rest
                        (best_sub_cost, best_phases) (memo', stats')))"
  by pat_completeness auto
termination
  by (relation "measures
        [\<lambda>x. case x of
                Inl (cfg, n, tbl, invt, depth, st) \<Rightarrow> (if depth \<le> n then 2 * (n - depth) + 3 else 0)
              | Inr (cfg, n, tbl, invt, active, depth, cs, best, st) \<Rightarrow>
                  (if depth \<le> n then 2 * (n - depth) + 2 else 1),
         \<lambda>x. case x of
                Inl (cfg, n, tbl, invt, depth, st) \<Rightarrow> 0
              | Inr (cfg, n, tbl, invt, active, depth, cs, best, st) \<Rightarrow> length cs]")
     auto

text \<open>The loop of \<^verbatim>\<open>search\<close> that fills \<^verbatim>\<open>ratio_cache[n]\<close> for \<open>n\<close> in \<^verbatim>\<open>range(1, N + 1)\<close>.\<close>

definition ratio_cache_of :: "nat \<Rightarrow> int \<Rightarrow> py_error + (nat \<times> int list list) list" where
  "ratio_cache_of n max_sum =
     (case sequence_err (map (\<lambda>k. generate_ratios k max_sum) [1..<n + 1]) of
        Inl e \<Rightarrow> Inl e
      | Inr ratio_lists \<Rightarrow> Inr (zip [1..<n + 1] ratio_lists))"

text \<open>
  \<^verbatim>\<open>search\<close>. \<open>search_with_memo\<close> is its body up to the \<^verbatim>\<open>return\<close>, with the local
  \<^verbatim>\<open>memo\<close> still in hand; \<open>search\<close> returns what the source returns.
\<close>

definition search_with_memo ::
  "WasteStream list \<Rightarrow> SystemConfig
    \<Rightarrow> py_error + (xreal \<times> PhaseResult list) \<times> memo_table \<times> SearchStats" where
  "search_with_memo strs cfg =
     (let inventory = dict_of (map (\<lambda>s. (stream_id s, quantity_L s)) strs);
          n = length strs
      in case ratio_cache_of n (ratio_sum_max cfg) of
           Inl e \<Rightarrow> Inl e
         | Inr ratio_cache \<Rightarrow>
             (case precompute_templates strs cfg ratio_cache of
                Inl e \<Rightarrow> Inl e
              | Inr (all_templates, n_total, n_infeasible, n_feasible) \<Rightarrow>
                  search_node cfg n all_templates inventory 0
                    (Map.empty,
                     \<lparr> evaluated = n_total, pruned_infeasible = n_infeasible,
                       templates_kept = n_feasible, pruned_bound = 0, memo_hits = 0 \<rparr>)))"

definition search ::
  "WasteStream list \<Rightarrow> SystemConfig \<Rightarrow> py_error + xreal \<times> PhaseResult list \<times> SearchStats" where
  "search strs cfg =
     (case search_with_memo strs cfg of
        Inl e \<Rightarrow> Inl e
      | Inr ((best_cost, best_phases), memo, stats) \<Rightarrow> Inr (best_cost, best_phases, stats))"

definition build_optimized_schedule ::
  "WasteStream list \<Rightarrow> SystemConfig \<Rightarrow> py_error + Schedule option \<times> SearchStats" where
  "build_optimized_schedule strs cfg =
     (case search strs cfg of
        Inl e \<Rightarrow> Inl e
      | Inr (best_cost, best_phases, stats) \<Rightarrow>
          (case best_cost of
             PInf \<Rightarrow> Inr (None, stats)
           | Fin c \<Rightarrow>
               Inr (Some \<lparr> phases = best_phases, total_cost = c,
                            total_runtime_min = sum_list (map runtime_min best_phases) \<rparr>,
                    stats)))"

section \<open>Properties\<close>

subsection \<open>The ratio enumerator\<close>

lemma set_product_repeat:
  "set (product_repeat xs n) = {v. length v = n \<and> set v \<subseteq> set xs}"
proof (induction n)
  case 0
  then show ?case by auto
next
  case (Suc n)
  show ?case
  proof (rule set_eqI)
    fix v
    show "v \<in> set (product_repeat xs (Suc n)) \<longleftrightarrow> v \<in> {v. length v = Suc n \<and> set v \<subseteq> set xs}"
      using Suc by (cases v) auto
  qed
qed

lemma distinct_concat_cons:
  "distinct ys \<Longrightarrow> distinct xs \<Longrightarrow> distinct (concat (map (\<lambda>x. map ((#) x) ys) xs))"
  by (induction xs) (auto simp: distinct_map)

lemma distinct_product_repeat:
  "distinct xs \<Longrightarrow> distinct (product_repeat xs n)"
  by (induction n) (simp_all add: distinct_concat_cons)

lemma fold_gcd_Gcd: "0 \<le> x \<Longrightarrow> fold (\<lambda>b acc. gcd acc b) xs (x::int) = Gcd (set (x # xs))"
proof (induction xs arbitrary: x)
  case Nil
  then show ?case by simp
next
  case (Cons a xs)
  have "fold (\<lambda>b acc. gcd acc b) (a # xs) x = Gcd (set (gcd x a # xs))"
    using Cons.IH [of "gcd x a"] by simp
  also have "\<dots> = Gcd (set (x # a # xs))"
    by (simp add: gcd.assoc)
  finally show ?case .
qed

lemma ratio_loop_filter:
  "\<forall>c \<in> set cs. c \<noteq> [] \<and> 0 \<le> hd c \<Longrightarrow>
   ratio_loop ms cs = Inr (filter (\<lambda>c. sum_list c \<le> ms \<and> Gcd (set c) = 1) cs)"
proof (induction cs)
  case Nil
  then show ?case by simp
next
  case (Cons c cs)
  then obtain x xs where c: "c = x # xs" and x: "0 \<le> x" by (cases c) auto
  from Cons x show ?case
    by (simp add: c reduce_gcd_def fold_gcd_Gcd)
qed

lemma generate_ratios_filter:
  assumes "2 \<le> n"
  shows "generate_ratios n ms =
    Inr (filter (\<lambda>c. sum_list c \<le> ms \<and> Gcd (set c) = 1) (product_repeat [1..ms - int n + 1] n))"
proof -
  have "\<forall>c \<in> set (product_repeat [1..ms - int n + 1] n). c \<noteq> [] \<and> 0 \<le> hd c"
  proof
    fix c assume "c \<in> set (product_repeat [1..ms - int n + 1] n)"
    then have l: "length c = n" and s: "set c \<subseteq> set [1..ms - int n + 1]"
      by (simp_all add: set_product_repeat)
    from l assms have ne: "c \<noteq> []" by auto
    then have "hd c \<in> set c" by simp
    with s have "1 \<le> hd c" by auto
    with ne show "c \<noteq> [] \<and> 0 \<le> hd c" by simp
  qed
  from ratio_loop_filter [OF this] assms show ?thesis
    by (simp add: generate_ratios_def)
qed

lemma length_le_sum_list:
  fixes v :: "int list"
  shows "\<forall>x \<in> set v. 1 \<le> x \<Longrightarrow> int (length v) \<le> sum_list v"
  by (induction v) auto

lemma sum_list_bound:
  fixes v :: "int list"
  assumes "\<forall>x \<in> set v. 1 \<le> x" "y \<in> set v"
  shows "y + int (length v) - 1 \<le> sum_list v"
  using assms
proof (induction v)
  case Nil
  then show ?case by simp
next
  case (Cons a v)
  have len: "int (length v) \<le> sum_list v"
    using Cons.prems(1) by (intro length_le_sum_list) simp
  show ?case
  proof (cases "y = a")
    case True
    with len show ?thesis by simp
  next
    case False
    with Cons have "y + int (length v) - 1 \<le> sum_list v" by auto
    moreover have "1 \<le> a" using Cons.prems(1) by simp
    ultimately show ?thesis by simp
  qed
qed

lemma generate_ratios_spec:
  assumes "1 \<le> n"
  shows "\<exists>rs. generate_ratios n ms = Inr rs \<and> distinct rs \<and>
          (int n \<le> ms \<longrightarrow> set rs = {v. valid_ratio n ms v})"
proof (cases "n = 1")
  case True
  have "{v. valid_ratio 1 ms v} = {[1]}" if "1 \<le> ms"
  proof (rule set_eqI)
    fix v :: "int list"
    show "v \<in> {v. valid_ratio 1 ms v} \<longleftrightarrow> v \<in> {[1]}"
    proof (cases v)
      case Nil
      then show ?thesis by (simp add: valid_ratio_def)
    next
      case (Cons a w)
      then show ?thesis using that by (cases w) (auto simp: valid_ratio_def)
    qed
  qed
  with True show ?thesis by (auto simp: generate_ratios_def)
next
  case False
  with assms have n2: "2 \<le> n" by simp
  let ?P = "\<lambda>c. sum_list c \<le> ms \<and> Gcd (set c) = 1"
  let ?rs = "filter ?P (product_repeat [1..ms - int n + 1] n)"
  have eq: "generate_ratios n ms = Inr ?rs" by (rule generate_ratios_filter [OF n2])
  have d: "distinct ?rs" by (simp add: distinct_product_repeat)
  have "set ?rs = {v. valid_ratio n ms v}"
  proof (rule set_eqI)
    fix v
    show "v \<in> set ?rs \<longleftrightarrow> v \<in> {v. valid_ratio n ms v}"
    proof
      assume "v \<in> set ?rs"
      then show "v \<in> {v. valid_ratio n ms v}"
        by (auto simp: set_product_repeat valid_ratio_def list_all_iff)
    next
      assume "v \<in> {v. valid_ratio n ms v}"
      then have v: "length v = n" "\<forall>x \<in> set v. 1 \<le> x" "sum_list v \<le> ms" "Gcd (set v) = 1"
        by (auto simp: valid_ratio_def list_all_iff)
      have "set v \<subseteq> set [1..ms - int n + 1]"
      proof
        fix y assume y: "y \<in> set v"
        from sum_list_bound [OF v(2) y] v(1,3) have "y \<le> ms - int n + 1" by simp
        with v(2) y show "y \<in> set [1..ms - int n + 1]" by simp
      qed
      with v show "v \<in> set ?rs" by (simp add: set_product_repeat)
    qed
  qed
  with eq d show ?thesis by blast
qed

text \<open>
  Claim C8, as stated, at \<open>n = 2\<close> and \<open>maxSum = 2\<close> (which satisfies \<open>maxSum \<ge> n\<close>):
  the enumerator returns only \<open>(1, 1)\<close>, so \<open>(1, 2)\<close> and \<open>(2, 1)\<close> are not both present.
\<close>

theorem generate_ratios_2_2_counterexample:
  "generate_ratios 2 2 = Inr [[1, 1]] \<and> [1, 2] \<notin> set [[1, 1 :: int]]"
  by code_simp

text \<open>
  Claim C8, amended: for every \<open>n \<ge> 1\<close> (in particular \<open>n\<close> in 1..5) and every
  \<open>maxSum \<ge> n\<close>, \<open>generate_ratios n maxSum\<close> returns, without raising, a list without
  repetitions whose elements are exactly the vectors of length \<open>n\<close> with strictly positive
  components, sum at most \<open>maxSum\<close> and gcd 1; and for \<open>n = 2\<close> and \<open>maxSum \<ge> 3\<close> the
  distinct vectors \<open>(1, 2)\<close> and \<open>(2, 1)\<close> are both in it.
\<close>

theorem generate_ratios_exact:
  assumes "1 \<le> n" and "int n \<le> max_sum"
  shows "\<exists>rs. generate_ratios n max_sum = Inr rs \<and> distinct rs
           \<and> set rs = {v. valid_ratio n max_sum v}
           \<and> (n = 2 \<and> 3 \<le> max_sum \<longrightarrow> [1, 2] \<in> set rs \<and> [2, 1] \<in> set rs \<and> [1, 2] \<noteq> [2, 1 :: int])"
proof -
  from generate_ratios_spec [OF assms(1), of max_sum] assms(2)
  obtain rs where rs: "generate_ratios n max_sum = Inr rs" "distinct rs"
      "set rs = {v. valid_ratio n max_sum v}"
    by blast
  have "[1, 2] \<in> set rs \<and> [2, 1] \<in> set rs" if "n = 2" "3 \<le> max_sum"
    using that rs(3) by (simp add: valid_ratio_def)
  with rs show ?thesis by auto
qed

theorem generate_ratios_exact_witness:
  "(1::nat) \<le> 2 \<and> int 2 \<le> 3 \<and>
   (\<exists>rs. generate_ratios 2 3 = Inr rs \<and> distinct rs \<and> set rs = {v. valid_ratio 2 3 v}
      \<and> [1, 2] \<in> set rs \<and> [2, 1] \<in> set rs)"
  using generate_ratios_exact [of 2 3] by auto

lemma search_node_cases:
  assumes "search_node cfg n tbl invt depth (memo, stats) = Inr (r, memo', stats')"
  obtains
    (terminal) "active_of invt = []" "r = (Fin 0, [])" "memo' = memo" "stats' = stats"
  | (bound) "active_of invt \<noteq> []" "n < depth" "r = (PInf, [])" "memo' = memo" "stats' = stats"
  | (hit) "active_of invt \<noteq> []" "depth \<le> n" "memo (memo_key_of (active_of invt)) = Some r"
      "memo' = memo" "stats' = stats\<lparr>memo_hits := memo_hits stats + 1\<rparr>"
  | (fresh) cands b bp m1 where "active_of invt \<noteq> []" "depth \<le> n"
      "memo (memo_key_of (active_of invt)) = None"
      "collect_candidates tbl (active_of invt) = Inr cands"
      "search_loop cfg n tbl invt (active_of invt) depth (sort_key fst cands) (PInf, None) (memo, stats)
         = Inr ((b, bp), m1, stats')"
      "r = (case bp of Some ps \<Rightarrow> (b, ps) | None \<Rightarrow> (PInf, []))"
      "memo' = m1(memo_key_of (active_of invt) \<mapsto> r)"
  using assms
  by (auto simp: Let_def split: if_splits option.splits sum.splits prod.splits)

lemma search_loop_cons_cases:
  assumes "search_loop cfg n tbl invt active depth ((cost, tmpl, nb) # rest) (b, bp) (memo, stats)
             = Inr (res, memo', stats')"
  obtains
    (pruned) "real_ge cost b" "res = (b, bp)" "memo' = memo"
      "stats' = stats\<lparr>pruned_bound := pruned_bound stats + length ((cost, tmpl, nb) # rest)\<rparr>"
  | (better) new_inv rc rps m1 s1 phase where "\<not> real_ge cost b"
      "update_inventory invt active tmpl nb = Inr new_inv"
      "search_node cfg n tbl new_inv (depth + 1) (memo, stats) = Inr ((rc, rps), m1, s1)"
      "xless (xadd cost rc) b" "make_phase cfg tmpl nb = Inr phase"
      "search_loop cfg n tbl invt active depth rest (xadd cost rc, Some (phase # rps)) (m1, s1)
         = Inr (res, memo', stats')"
  | (worse) new_inv rc rps m1 s1 where "\<not> real_ge cost b"
      "update_inventory invt active tmpl nb = Inr new_inv"
      "search_node cfg n tbl new_inv (depth + 1) (memo, stats) = Inr ((rc, rps), m1, s1)"
      "\<not> xless (xadd cost rc) b"
      "search_loop cfg n tbl invt active depth rest (b, bp) (m1, s1)
         = Inr (res, memo', stats')"
  using assms
  by (auto simp: Let_def split: if_splits option.splits sum.splits prod.splits)

declare search_node.simps [simp del] search_loop.simps(2) [simp del]

definition node_result_ok ::
  "(memo_key \<Rightarrow> xreal \<times> PhaseResult list \<Rightarrow> bool) \<Rightarrow> inventory \<Rightarrow> xreal \<times> PhaseResult list \<Rightarrow> bool" where
  "node_result_ok R invt r \<longleftrightarrow>
     (active_of invt = [] \<and> r = (Fin 0, [])) \<or> r = (PInf, [])
     \<or> (active_of invt \<noteq> [] \<and> R (memo_key_of (active_of invt)) r)"

definition memo_ok :: "(memo_key \<Rightarrow> xreal \<times> PhaseResult list \<Rightarrow> bool) \<Rightarrow> memo_table \<Rightarrow> bool" where
  "memo_ok R memo \<longleftrightarrow> (\<forall>k v. memo k = Some v \<longrightarrow> R k v)"

definition best_ok ::
  "(memo_key \<Rightarrow> xreal \<times> PhaseResult list \<Rightarrow> bool) \<Rightarrow> memo_key \<Rightarrow> xreal \<times> PhaseResult list option \<Rightarrow> bool" where
  "best_ok R k best \<longleftrightarrow>
     best = (PInf, None) \<or> (\<exists>c ps. best = (Fin c, Some ps) \<and> R k (Fin c, ps))"

lemma xless_xadd_Fin: "xless (xadd c rc) b \<Longrightarrow> \<exists>x. rc = Fin x"
  by (cases rc) auto

lemma search_invariant:
  fixes R :: "memo_key \<Rightarrow> xreal \<times> PhaseResult list \<Rightarrow> bool"
  assumes inf: "\<And>k. R k (PInf, [])"
    and step: "\<And>cfg tbl invt cands cost tmpl nb new_inv phase rc rps.
      Ctx cfg tbl \<Longrightarrow> Iv invt \<Longrightarrow> active_of invt \<noteq> [] \<Longrightarrow>
      collect_candidates tbl (active_of invt) = Inr cands \<Longrightarrow> (cost, tmpl, nb) \<in> set cands \<Longrightarrow>
      update_inventory invt (active_of invt) tmpl nb = Inr new_inv \<Longrightarrow>
      make_phase cfg tmpl nb = Inr phase \<Longrightarrow> Iv new_inv \<Longrightarrow>
      node_result_ok R new_inv (Fin rc, rps) \<Longrightarrow>
      R (memo_key_of (active_of invt)) (Fin (cost + rc), phase # rps)"
    and pres: "\<And>cfg tbl invt cands cost tmpl nb new_inv.
      Ctx cfg tbl \<Longrightarrow> Iv invt \<Longrightarrow> active_of invt \<noteq> [] \<Longrightarrow>
      collect_candidates tbl (active_of invt) = Inr cands \<Longrightarrow> (cost, tmpl, nb) \<in> set cands \<Longrightarrow>
      update_inventory invt (active_of invt) tmpl nb = Inr new_inv \<Longrightarrow> Iv new_inv"
  shows "\<forall>r memo' stats'. search_node cfg n tbl invt depth st = Inr (r, memo', stats') \<longrightarrow>
           Ctx cfg tbl \<longrightarrow> Iv invt \<longrightarrow> memo_ok R (fst st) \<longrightarrow>
           memo_ok R memo' \<and> node_result_ok R invt r"
    and "\<forall>best' memo' stats' cands. search_loop cfg n tbl invt active depth cs best st = Inr (best', memo', stats') \<longrightarrow>
           Ctx cfg tbl \<longrightarrow> Iv invt \<longrightarrow> active = active_of invt \<longrightarrow> active \<noteq> [] \<longrightarrow>
           collect_candidates tbl active = Inr cands \<longrightarrow> set cs \<subseteq> set cands \<longrightarrow>
           memo_ok R (fst st) \<longrightarrow> best_ok R (memo_key_of active) best \<longrightarrow>
           memo_ok R memo' \<and> best_ok R (memo_key_of active) best'"
proof (induction cfg n tbl invt depth st and cfg n tbl invt active depth cs best st
    rule: search_node_search_loop.induct)
  case (1 cfg n tbl invt depth memo stats)
  show ?case
  proof (intro allI impI)
    fix r memo' stats'
    assume run: "search_node cfg n tbl invt depth (memo, stats) = Inr (r, memo', stats')"
      and ctx: "Ctx cfg tbl" and iv: "Iv invt" and m: "memo_ok R (fst (memo, stats))"
    from run show "memo_ok R memo' \<and> node_result_ok R invt r"
    proof (cases rule: search_node_cases)
      case terminal
      with m show ?thesis by (simp add: node_result_ok_def)
    next
      case bound
      with m show ?thesis by (simp add: node_result_ok_def)
    next
      case hit
      from m hit(3) have "R (memo_key_of (active_of invt)) r"
        unfolding memo_ok_def by (cases r) auto
      with m hit show ?thesis by (simp add: node_result_ok_def)
    next
      case (fresh cands b bp m1)
      have "memo_ok R m1 \<and> best_ok R (memo_key_of (active_of invt)) (b, bp)"
        using "1.IH" [OF refl fresh(1) _ refl fresh(3) fresh(4)] fresh(1,2,4,5) ctx iv m
        by (auto simp: best_ok_def)
      then have m1: "memo_ok R m1" and b: "best_ok R (memo_key_of (active_of invt)) (b, bp)"
        by simp_all
      from b have rr: "R (memo_key_of (active_of invt)) r"
        using fresh(6) inf by (auto simp: best_ok_def)
      with m1 fresh(1,7) show ?thesis
        by (auto simp: memo_ok_def node_result_ok_def)
    qed
  qed
next
  case (2 cfg n tbl invt active depth best st)
  then show ?case by simp
next
  case (3 cfg n tbl invt active depth cost tmpl nb rest b bp memo stats)
  show ?case
  proof (intro allI impI)
    fix best' memo' stats' cands
    assume run: "search_loop cfg n tbl invt active depth ((cost, tmpl, nb) # rest) (b, bp) (memo, stats)
                   = Inr (best', memo', stats')"
      and ctx: "Ctx cfg tbl" and iv: "Iv invt" and act: "active = active_of invt" "active \<noteq> []"
      and cc: "collect_candidates tbl active = Inr cands"
      and sub: "set ((cost, tmpl, nb) # rest) \<subseteq> set cands"
      and m: "memo_ok R (fst (memo, stats))" and bo: "best_ok R (memo_key_of active) (b, bp)"
    from sub have mem: "(cost, tmpl, nb) \<in> set cands" and sub': "set rest \<subseteq> set cands" by auto
    from run show "memo_ok R memo' \<and> best_ok R (memo_key_of active) best'"
    proof (cases rule: search_loop_cons_cases)
      case pruned
      with m bo show ?thesis by simp
    next
      case (better new_inv rc rps m1 s1 phase)
      have ivn: "Iv new_inv"
        using pres [OF ctx iv _ _ mem] act cc better(2) by simp
      have "memo_ok R m1 \<and> node_result_ok R new_inv (rc, rps)"
        using "3.IH"(1) [OF better(1) better(2)] better(3) ctx ivn m by simp
      then have m1: "memo_ok R m1" and nr: "node_result_ok R new_inv (rc, rps)" by simp_all
      from xless_xadd_Fin [OF better(4)] obtain x where x: "rc = Fin x" by blast
      have "R (memo_key_of (active_of invt)) (Fin (cost + x), phase # rps)"
        using step [OF ctx iv _ _ mem _ better(5) ivn] act cc better(2) nr x by simp
      then have bo': "best_ok R (memo_key_of active) (xadd cost rc, Some (phase # rps))"
        using x act by (simp add: best_ok_def)
      show ?thesis
        using "3.IH"(2) [OF better(1) better(2) better(3) refl refl refl refl better(4) better(5)]
          better(6) ctx iv act cc sub' m1 bo'
        by (cases best') simp
    next
      case (worse new_inv rc rps m1 s1)
      have ivn: "Iv new_inv"
        using pres [OF ctx iv _ _ mem] act cc worse(2) by simp
      have "memo_ok R m1 \<and> node_result_ok R new_inv (rc, rps)"
        using "3.IH"(1) [OF worse(1) worse(2)] worse(3) ctx ivn m by simp
      then have m1: "memo_ok R m1" by simp
      show ?thesis
        using "3.IH"(3) [OF worse(1) worse(2) worse(3) refl refl refl refl worse(4)]
          worse(5) ctx iv act cc sub' m1 bo
        by (cases best') simp
    qed
  qed
qed

lemma sequence_err_map_Inr: "sequence_err (map Inr xs) = Inr xs"
  by (induction xs) simp_all

lemma sequence_err_Inr_D: "sequence_err ms = Inr xs \<Longrightarrow> ms = map Inr xs"
proof (induction ms arbitrary: xs)
  case Nil
  then show ?case by simp
next
  case (Cons m ms)
  then show ?case by (auto split: sum.splits)
qed

lemma sequence_err_Inr_iff: "sequence_err ms = Inr xs \<longleftrightarrow> ms = map Inr xs"
  using sequence_err_map_Inr sequence_err_Inr_D by metis

lemma ebind_Inr_iff: "ebind m f = Inr y \<longleftrightarrow> (\<exists>x. m = Inr x \<and> f x = Inr y)"
  by (cases m) (simp_all add: ebind_def)

lemma sequence_err_map_mem:
  "sequence_err (map f xs) = Inr ys \<Longrightarrow> y \<in> set ys \<Longrightarrow> \<exists>x \<in> set xs. f x = Inr y"
proof (induction xs arbitrary: ys)
  case Nil
  then show ?case by simp
next
  case (Cons x xs)
  then show ?case by (auto split: sum.splits)
qed

lemma sequence_err_map_mem2:
  "sequence_err (map f xs) = Inr ys \<Longrightarrow> x \<in> set xs \<Longrightarrow> \<exists>y \<in> set ys. f x = Inr y"
proof (induction xs arbitrary: ys)
  case Nil
  then show ?case by simp
next
  case (Cons a xs)
  then show ?case by (auto split: sum.splits)
qed

lemma collect_candidates_mem:
  assumes "collect_candidates tbl active = Inr cands" and "(cost, tmpl, nb) \<in> set cands"
  shows "\<exists>key ts. (key, ts) \<in> set tbl \<and> key \<subseteq> set (map fst active) \<and> tmpl \<in> set ts
           \<and> num_batches_of active tmpl = Inr nb \<and> cost = nb * cost_per_batch tmpl"
proof -
  let ?g = "\<lambda>tmpl. ebind (num_batches_of active tmpl)
                              (\<lambda>nb. Inr (nb * cost_per_batch tmpl, tmpl, nb))"
  let ?f = "\<lambda>(subset_key, templates).
              if \<not> subset_key \<subseteq> set (map fst active) then Inr []
              else sequence_err (map ?g templates)"
  from assms(1) obtain css where css: "sequence_err (map ?f tbl) = Inr css" and cands: "cands = concat css"
    by (auto simp: collect_candidates_def ebind_Inr_iff Let_def)
  from assms(2) cands obtain cs where cs: "cs \<in> set css" "(cost, tmpl, nb) \<in> set cs" by auto
  from sequence_err_map_mem [OF css cs(1)] obtain kt where kt: "kt \<in> set tbl" "?f kt = Inr cs"
    by blast
  obtain key ts where kts: "kt = (key, ts)" by (cases kt)
  from kt(2) kts cs(2) have sub: "key \<subseteq> set (map fst active)"
    by (auto split: if_splits)
  with kt(2) kts have "sequence_err (map ?g ts) = Inr cs" by simp
  from sequence_err_map_mem [OF this cs(2)] obtain t where t: "t \<in> set ts" "?g t = Inr (cost, tmpl, nb)"
    by blast
  from t(2) have "num_batches_of active tmpl = Inr nb" "cost = nb * cost_per_batch tmpl" "t = tmpl"
    by (auto simp: ebind_Inr_iff)
  with t(1) kt(1) kts sub show ?thesis by blast
qed

definition template_cost_ok :: "SystemConfig \<Rightarrow> PhaseTemplate \<Rightarrow> bool" where
  "template_cost_ok cfg t \<longleftrightarrow>
     cost_per_batch t =
       of_int (sum_ratios t) / t_W t
       * (t_W t * (t_r_diesel t * cost_diesel_per_L cfg + t_r_naoh t * cost_naoh_per_L cfg
                   + t_r_water t * cost_water_per_L cfg)
          + (P_system cfg * cost_electricity_per_kWh cfg + cost_labor_per_hr cfg) / 60)"

lemma phase_cost_algebra:
  "c_total (calc_phase_cost w rw rd rn (sr * nb / w) cfg)
     = nb * (sr / w * (w * (rd * cost_diesel_per_L cfg + rn * cost_naoh_per_L cfg
                            + rw * cost_water_per_L cfg)
                      + (P_system cfg * cost_electricity_per_kWh cfg + cost_labor_per_hr cfg) / 60))"
  by (simp add: calc_phase_cost_def Let_def field_simps)

lemma make_phase_cost:
  assumes "make_phase cfg t nb = Inr ph" and "template_cost_ok cfg t"
  shows "cost_total ph = nb * cost_per_batch t"
proof -
  from assms(1) have "cost_total ph =
      c_total (calc_phase_cost (t_W t) (t_r_water t) (t_r_diesel t) (t_r_naoh t)
                 (of_int (sum_ratios t) * nb / t_W t) cfg)"
    by (auto simp: make_phase_def Let_def ebind_Inr_iff fdiv_def split: if_splits)
  also have "\<dots> = nb * cost_per_batch t"
    using assms(2) unfolding template_cost_ok_def phase_cost_algebra by simp
  finally show ?thesis .
qed

definition feasible_templates ::
  "SystemConfig \<Rightarrow> real \<Rightarrow> string list \<Rightarrow> WasteStream list \<Rightarrow> int list list \<Rightarrow> PhaseTemplate list" where
  "feasible_templates cfg fixed comb ss rl =
     concat (map (\<lambda>rs. case eval_template cfg fixed comb ss rs of
                          Inr (Some t) \<Rightarrow> [t] | _ \<Rightarrow> []) rl)"

definition ratios_for :: "(nat \<times> int list list) list \<Rightarrow> string list \<Rightarrow> int list list" where
  "ratios_for ratio_cache comb =
     (case map_of ratio_cache (length comb) of None \<Rightarrow> [[1]] | Some rl \<Rightarrow> rl)"

definition subset_templates ::
  "SystemConfig \<Rightarrow> real \<Rightarrow> (string \<times> WasteStream) list \<Rightarrow> (nat \<times> int list list) list
    \<Rightarrow> string list \<Rightarrow> PhaseTemplate list" where
  "subset_templates cfg fixed streams_map ratio_cache comb =
     (case sequence_err (map (dict_get streams_map) comb) of
        Inl e \<Rightarrow> []
      | Inr ss \<Rightarrow> feasible_templates cfg fixed comb ss (ratios_for ratio_cache comb))"

definition kept_templates :: "PhaseTemplate list \<Rightarrow> PhaseTemplate list" where
  "kept_templates ts = take MAX_TEMPLATES_PER_SUBSET (sort_key cost_per_batch ts)"

lemma ratios_loop_feasible:
  "ratios_loop cfg fixed comb ss rl (ts0, a, b) = Inr (ts, a', b')
   \<Longrightarrow> ts = ts0 @ feasible_templates cfg fixed comb ss rl"
proof (induction rl arbitrary: ts0 a b)
  case Nil
  then show ?case by (simp add: feasible_templates_def)
next
  case (Cons rs rl)
  show ?case
  proof (cases "eval_template cfg fixed comb ss rs")
    case (Inl e)
    with Cons.prems show ?thesis by simp
  next
    case (Inr r)
    show ?thesis
    proof (cases r)
      case None
      with Inr Cons.prems Cons.IH [of ts0 "a + 1" "b + 1"] show ?thesis
        by (simp add: feasible_templates_def)
    next
      case (Some t)
      with Inr Cons.prems Cons.IH [of "ts0 @ [t]" "a + 1" b] show ?thesis
        by (simp add: feasible_templates_def)
    qed
  qed
qed

lemma map_of_dict_set: "map_of (dict_set d k v) = (map_of d)(k \<mapsto> v)"
  by (induction d) (auto simp: fun_eq_iff)

lemma fst_set_dict_set: "fst ` set (dict_set d k v) = insert k (fst ` set d)"
proof -
  have "fst ` set (dict_set d k v) = dom (map_of (dict_set d k v))"
    by (simp add: dom_map_of_conv_image_fst)
  also have "\<dots> = insert k (dom (map_of d))"
    by (simp add: map_of_dict_set)
  finally show ?thesis by (simp add: dom_map_of_conv_image_fst)
qed

lemma distinct_dict_set: "distinct (map fst d) \<Longrightarrow> distinct (map fst (dict_set d k v))"
proof (induction d)
  case Nil
  then show ?case by simp
next
  case (Cons p d)
  obtain k' v' where p: "p = (k', v')" by (cases p)
  from Cons show ?case
    using fst_set_dict_set [of d k v] by (auto simp: p)
qed

lemma set_dict_set_subset: "set (dict_set d k v) \<subseteq> insert (k, v) (set d)"
proof (induction d)
  case Nil
  then show ?case by simp
next
  case (Cons p d)
  obtain k' v' where p: "p = (k', v')" by (cases p)
  from Cons show ?case unfolding p by (cases "k' = k") auto
qed

lemma distinct_fold_dict_set:
  "distinct (map fst d) \<Longrightarrow> distinct (map fst (fold (\<lambda>(k, v) d. dict_set d k v) ps d))"
  by (induction ps arbitrary: d) (auto simp: distinct_dict_set)

lemma distinct_dict_of: "distinct (map fst (dict_of ps))"
  by (simp add: dict_of_def distinct_fold_dict_set)

lemma fst_set_fold_dict_set:
  "fst ` set (fold (\<lambda>(k, v) d. dict_set d k v) ps d) = fst ` set ps \<union> fst ` set d"
proof (induction ps arbitrary: d)
  case Nil
  then show ?case by simp
next
  case (Cons p ps)
  obtain k v where p: "p = (k, v)" by (cases p)
  show ?case unfolding p by (simp add: Cons.IH fst_set_dict_set)
qed

lemma fst_set_dict_of: "fst ` set (dict_of ps) = fst ` set ps"
  by (simp add: dict_of_def fst_set_fold_dict_set)

lemma combinations_props:
  "c \<in> set (combinations xs k) \<Longrightarrow> sorted xs \<Longrightarrow> distinct xs
   \<Longrightarrow> sorted c \<and> distinct c \<and> set c \<subseteq> set xs \<and> length c = k"
proof (induction xs k arbitrary: c rule: combinations.induct)
  case (1 xs)
  then show ?case by simp
next
  case (2 k)
  then show ?case by simp
next
  case (3 x xs k)
  from "3.prems"(1) consider c' where "c = x # c'" "c' \<in> set (combinations xs k)"
    | "c \<in> set (combinations xs (Suc k))" by auto
  then show ?case
  proof cases
    case 1
    with "3.IH"(1) [of c'] "3.prems" show ?thesis by auto
  next
    case 2
    with "3.IH"(2) [of c] "3.prems" show ?thesis by auto
  qed
qed

lemma all_subsets_props:
  assumes "c \<in> set (all_subsets ids)" "sorted ids" "distinct ids"
  shows "sorted c" "distinct c" "set c \<subseteq> set ids" "c \<noteq> []"
proof -
  from assms(1) obtain k where k: "1 \<le> k" "c \<in> set (combinations ids k)"
    by (auto simp: all_subsets_def)
  from combinations_props [OF k(2) assms(2,3)] k(1)
  show "sorted c" "distinct c" "set c \<subseteq> set ids" "c \<noteq> []" by auto
qed

lemma all_subsets_inj:
  assumes "sorted ids" "distinct ids"
  shows "inj_on set (set (all_subsets ids))"
proof (rule inj_onI)
  fix c d assume "c \<in> set (all_subsets ids)" "d \<in> set (all_subsets ids)" "set c = set d"
  with all_subsets_props [OF _ assms] show "c = d"
    by (intro sorted_distinct_set_unique) auto
qed

text \<open>
  Claim C6, as stated, at depth 2 with one stream (\<open>N = 1\<close>) that still holds 10 L: the
  scheduler returns the pair \<open>(+infinity, [])\<close> as an ordinary result; nothing is raised.
\<close>

theorem depth_bound_counterexample:
  "search_node default_config 1 [] [(''A'', 10)] 2
     (Map.empty, \<lparr>evaluated = 0, pruned_infeasible = 0, templates_kept = 0,
                   pruned_bound = 0, memo_hits = 0\<rparr>)
   = Inr ((PInf, []), Map.empty,
          \<lparr>evaluated = 0, pruned_infeasible = 0, templates_kept = 0,
           pruned_bound = 0, memo_hits = 0\<rparr>)"
  by (simp add: search_node.simps active_of_def ACTIVE_THRESHOLD_L_def)

text \<open>
  Claim C6, amended: when the recursion depth exceeds the number of streams \<open>N\<close> at a
  non-terminal state, the scheduler does not raise; it returns \<open>(+infinity, [])\<close> silently,
  leaving the memo table and the statistics unchanged.
\<close>

theorem depth_bound_returns_infinity:
  assumes "active_of invt \<noteq> []" and "n < depth"
  shows "search_node cfg n tbl invt depth (memo, stats) = Inr ((PInf, []), memo, stats)"
  using assms by (simp add: search_node.simps)

theorem depth_bound_returns_infinity_witness:
  "active_of [(''A'', 10)] \<noteq> [] \<and> (1::nat) < 2 \<and>
   search_node default_config 1 [] [(''A'', 10)] 2
     (Map.empty, \<lparr>evaluated = 0, pruned_infeasible = 0, templates_kept = 0,
                   pruned_bound = 0, memo_hits = 0\<rparr>)
   = Inr ((PInf, []), Map.empty,
          \<lparr>evaluated = 0, pruned_infeasible = 0, templates_kept = 0,
           pruned_bound = 0, memo_hits = 0\<rparr>)"
proof -
  have a: "active_of [(''A'', 10)] \<noteq> []"
    by (simp add: active_of_def ACTIVE_THRESHOLD_L_def)
  have b: "(1::nat) < 2" by simp
  from a b depth_bound_returns_infinity [OF a b] show ?thesis by simp
qed

subsection \<open>What the pre-computation puts in the index\<close>

definition template_wf :: "SystemConfig \<Rightarrow> string set \<Rightarrow> PhaseTemplate \<Rightarrow> bool" where
  "template_wf cfg key t \<longleftrightarrow>
     set (stream_ids t) = key \<and> distinct (stream_ids t) \<and> stream_ids t \<noteq> []
     \<and> length (ratios t) = length (stream_ids t) \<and> list_all (\<lambda>r. 1 \<le> r) (ratios t)
     \<and> sum_ratios t = sum_list (ratios t) \<and> t_W t \<noteq> 0 \<and> W_min cfg \<le> t_W t
     \<and> template_cost_ok cfg t"

definition index_wf :: "SystemConfig \<Rightarrow> templates_index \<Rightarrow> bool" where
  "index_wf cfg tbl \<longleftrightarrow> list_all (\<lambda>(key, ts). list_all (template_wf cfg key) ts) tbl"

lemma eval_template_facts:
  assumes "eval_template cfg fixed comb ss rs = Inr (Some t)"
  shows "stream_ids t = comb" "ratios t = rs" "sum_ratios t = sum_list rs" "t_W t \<noteq> 0"
    "W_min cfg \<le> t_W t"
    "cost_per_batch t =
       of_int (sum_list rs) / t_W t
       * (t_W t * (t_r_diesel t * cost_diesel_per_L cfg + t_r_naoh t * cost_naoh_per_L cfg
                   + t_r_water t * cost_water_per_L cfg) + fixed)"
  using assms
  by (auto simp: eval_template_def Let_def ebind_Inr_iff fdiv_def split: if_splits prod.splits)

lemma feasible_templates_mem:
  "t \<in> set (feasible_templates cfg fixed comb ss rl)
   \<longleftrightarrow> (\<exists>rs \<in> set rl. eval_template cfg fixed comb ss rs = Inr (Some t))"
proof
  assume "t \<in> set (feasible_templates cfg fixed comb ss rl)"
  then show "\<exists>rs \<in> set rl. eval_template cfg fixed comb ss rs = Inr (Some t)"
    by (auto simp: feasible_templates_def split: sum.splits option.splits)
next
  assume "\<exists>rs \<in> set rl. eval_template cfg fixed comb ss rs = Inr (Some t)"
  then obtain rs where "rs \<in> set rl" "eval_template cfg fixed comb ss rs = Inr (Some t)" by blast
  then show "t \<in> set (feasible_templates cfg fixed comb ss rl)"
    by (force simp: feasible_templates_def)
qed

lemma set_kept_templates: "set (kept_templates ts) \<subseteq> set ts"
  using set_take_subset [of MAX_TEMPLATES_PER_SUBSET "sort_key cost_per_batch ts"]
  by (simp add: kept_templates_def)

lemma subsets_loop_entries:
  "subsets_loop cfg fixed sm rc combs (tbl0, a, b, c) = Inr (tbl, a', b', c') \<Longrightarrow>
   (key, ts) \<in> set tbl \<Longrightarrow>
   (key, ts) \<in> set tbl0 \<or>
   (\<exists>comb \<in> set combs. key = set comb \<and> subset_templates cfg fixed sm rc comb \<noteq> []
       \<and> ts = kept_templates (subset_templates cfg fixed sm rc comb))"
proof (induction combs arbitrary: tbl0 a b c)
  case Nil
  then show ?case by simp
next
  case (Cons comb combs)
  from Cons.prems(1) obtain ss where ss: "sequence_err (map (dict_get sm) comb) = Inr ss"
    by (auto split: sum.splits)
  let ?rl = "ratios_for rc comb"
  from Cons.prems(1) ss obtain templates a1 b1 where
    rl: "ratios_loop cfg fixed comb ss ?rl ([], a, b) = Inr (templates, a1, b1)"
    by (auto simp: ratios_for_def Let_def split: sum.splits)
  from ratios_loop_feasible [OF rl] ss
  have tm: "templates = subset_templates cfg fixed sm rc comb"
    by (simp add: subset_templates_def)
  show ?case
  proof (cases "templates = []")
    case True
    with Cons.prems(1) ss rl
    have "subsets_loop cfg fixed sm rc combs (tbl0, a1, b1, c) = Inr (tbl, a', b', c')"
      by (simp add: ratios_for_def Let_def)
    from Cons.IH [OF this Cons.prems(2)] show ?thesis by auto
  next
    case False
    with Cons.prems(1) ss rl
    have "subsets_loop cfg fixed sm rc combs
            (dict_set tbl0 (set comb) (kept_templates templates), a1, b1,
             c + length (kept_templates templates)) = Inr (tbl, a', b', c')"
      by (simp add: ratios_for_def Let_def kept_templates_def)
    from Cons.IH [OF this Cons.prems(2)] False tm set_dict_set_subset [of tbl0 "set comb" "kept_templates templates"]
    show ?thesis by auto
  qed
qed

lemma generate_ratios_shape:
  assumes "generate_ratios n ms = Inr rl" and "rs \<in> set rl"
  shows "length rs = n \<and> list_all (\<lambda>r. 1 \<le> r) rs"
proof (cases "n = 0 \<or> n = 1")
  case True
  then show ?thesis
  proof
    assume n: "n = 0"
    with assms show ?thesis
      by (auto simp: generate_ratios_def reduce_gcd_def split: if_splits)
  next
    assume "n = 1"
    with assms show ?thesis by (auto simp: generate_ratios_def)
  qed
next
  case False
  then have "2 \<le> n" by simp
  from generate_ratios_filter [OF this, of ms] assms
  have "rs \<in> set (product_repeat [1..ms - int n + 1] n)" by auto
  then show ?thesis by (auto simp: set_product_repeat list_all_iff)
qed

lemma sequence_err_zip_lookup:
  assumes "sequence_err (map f xs) = Inr ys" and "map_of (zip xs ys) x = Some y"
  shows "f x = Inr y"
proof -
  from assms(2) have "(x, y) \<in> set (zip xs ys)" by (rule map_of_SomeD)
  then obtain i where i: "i < length xs" "i < length ys" "xs ! i = x" "ys ! i = y"
    by (auto simp: in_set_zip)
  from sequence_err_Inr_D [OF assms(1)] have "map f xs ! i = map Inr ys ! i" by simp
  with i show ?thesis by simp
qed

lemma length_dict_set: "length (dict_set d k v) \<le> Suc (length d)"
  by (induction d) auto

lemma length_fold_dict_set:
  "length (fold (\<lambda>(k, v) d. dict_set d k v) ps d) \<le> length ps + length d"
proof (induction ps arbitrary: d)
  case Nil
  then show ?case by simp
next
  case (Cons p ps)
  obtain k v where p: "p = (k, v)" by (cases p)
  have "length (fold (\<lambda>(k, v) d. dict_set d k v) ps (dict_set d k v))
          \<le> length ps + length (dict_set d k v)" by (rule Cons.IH)
  also have "\<dots> \<le> length ps + Suc (length d)" using length_dict_set [of d k v] by simp
  finally show ?case by (simp add: p)
qed

lemma length_dict_of: "length (dict_of ps) \<le> length ps"
  using length_fold_dict_set [of ps "[]"] by (simp add: dict_of_def)

lemma all_subsets_length:
  "c \<in> set (all_subsets ids) \<Longrightarrow> 1 \<le> length c \<and> length c \<le> length ids"
proof -
  assume "c \<in> set (all_subsets ids)"
  then obtain k where k: "1 \<le> k" "k \<le> length ids" "c \<in> set (combinations ids k)"
    by (auto simp: all_subsets_def)
  have "length c = k" using k(3)
    by (induction ids k arbitrary: c rule: combinations.induct) auto
  with k show ?thesis by simp
qed

lemma precompute_index_wf:
  assumes pre: "precompute_templates strs cfg rc = Inr (tbl, a, b, c)"
    and cache: "\<And>k rl rs. map_of rc k = Some rl \<Longrightarrow> rs \<in> set rl
                  \<Longrightarrow> length rs = k \<and> list_all (\<lambda>r. 1 \<le> r) rs"
    and dom: "\<And>k. 1 \<le> k \<Longrightarrow> k \<le> length strs \<Longrightarrow> map_of rc k \<noteq> None"
  shows "index_wf cfg tbl"
proof -
  define sm where "sm = dict_of (map (\<lambda>s. (stream_id s, s)) strs)"
  define ids where "ids = sort (map fst sm)"
  define fixed where
    "fixed = (P_system cfg * cost_electricity_per_kWh cfg + cost_labor_per_hr cfg) / 60"
  from pre have run: "subsets_loop cfg fixed sm rc (all_subsets ids) ([], 0, 0, 0) = Inr (tbl, a, b, c)"
    by (simp add: precompute_templates_def Let_def sm_def ids_def fixed_def)
  have sorted: "sorted ids" and dist: "distinct ids"
    by (simp_all add: ids_def sm_def distinct_dict_of)
  have len: "length ids \<le> length strs"
    using length_dict_of [of "map (\<lambda>s. (stream_id s, s)) strs"] by (simp add: ids_def sm_def)
  have "template_wf cfg key t" if kt: "(key, ts) \<in> set tbl" and t: "t \<in> set ts" for key ts t
  proof -
    from subsets_loop_entries [OF run kt] obtain comb where
      comb: "comb \<in> set (all_subsets ids)" "key = set comb"
        "ts = kept_templates (subset_templates cfg fixed sm rc comb)"
      by auto
    from t comb(3) set_kept_templates have t': "t \<in> set (subset_templates cfg fixed sm rc comb)"
      by blast
    then obtain ss where ss: "sequence_err (map (dict_get sm) comb) = Inr ss"
      by (cases "sequence_err (map (dict_get sm) comb)") (auto simp: subset_templates_def)
    with t' have "t \<in> set (feasible_templates cfg fixed comb ss (ratios_for rc comb))"
      by (simp add: subset_templates_def)
    then obtain rs where rs: "rs \<in> set (ratios_for rc comb)"
      "eval_template cfg fixed comb ss rs = Inr (Some t)"
      by (auto simp: feasible_templates_mem)
    note f = eval_template_facts [OF rs(2)]
    from all_subsets_length [OF comb(1)] len
    have lc: "1 \<le> length comb" "length comb \<le> length strs" by simp_all
    from dom [OF lc] obtain rl where rl: "map_of rc (length comb) = Some rl" by auto
    with rs(1) have "rs \<in> set rl" by (simp add: ratios_for_def)
    from cache [OF rl this] have shape: "length rs = length comb" "list_all (\<lambda>r. 1 \<le> r) rs"
      by simp_all
    from all_subsets_props [OF comb(1) sorted dist] have c: "distinct comb" "comb \<noteq> []" by simp_all
    show ?thesis
      unfolding template_wf_def template_cost_ok_def
      using f shape c comb(2) by (simp add: fixed_def)
  qed
  then show ?thesis
    by (auto simp: index_wf_def list_all_iff)
qed

definition initial_stats :: "nat \<Rightarrow> nat \<Rightarrow> nat \<Rightarrow> SearchStats" where
  "initial_stats n_total n_infeasible n_feasible =
     \<lparr> evaluated = n_total, pruned_infeasible = n_infeasible,
       templates_kept = n_feasible, pruned_bound = 0, memo_hits = 0 \<rparr>"

definition initial_inventory :: "WasteStream list \<Rightarrow> inventory" where
  "initial_inventory strs = dict_of (map (\<lambda>s. (stream_id s, quantity_L s)) strs)"

lemma search_with_memo_unfold:
  "search_with_memo strs cfg =
     (case ratio_cache_of (length strs) (ratio_sum_max cfg) of
        Inl e \<Rightarrow> Inl e
      | Inr rc \<Rightarrow>
          (case precompute_templates strs cfg rc of
             Inl e \<Rightarrow> Inl e
           | Inr (tbl, a, b, c) \<Rightarrow>
               search_node cfg (length strs) tbl (initial_inventory strs) 0
                 (Map.empty, initial_stats a b c)))"
  by (simp add: search_with_memo_def Let_def initial_stats_def initial_inventory_def
      split: sum.splits prod.splits)

lemma ratio_cache_of_index_wf:
  assumes rc: "ratio_cache_of (length strs) max_sum = Inr rc"
    and pre: "precompute_templates strs cfg rc = Inr (tbl, a, b, c)"
  shows "index_wf cfg tbl"
proof -
  let ?n = "length strs"
  from rc obtain rls where
    rls: "sequence_err (map (\<lambda>k. generate_ratios k max_sum) [1..<?n + 1]) = Inr rls"
    and rceq: "rc = zip [1..<?n + 1] rls"
    by (auto simp: ratio_cache_of_def split: sum.splits)
  from sequence_err_Inr_D [OF rls] have len: "length rls = ?n"
    by (metis length_map length_upt add_diff_cancel_right')
  show ?thesis
  proof (rule precompute_index_wf [OF pre])
    fix k rl rs assume "map_of rc k = Some rl" "rs \<in> set rl"
    with sequence_err_zip_lookup [OF rls] generate_ratios_shape rceq
    show "length rs = k \<and> list_all (\<lambda>r. 1 \<le> r) rs" by blast
  next
    fix k :: nat assume "1 \<le> k" "k \<le> ?n"
    then have "k \<in> set [1..<?n + 1]" by auto
    with len rceq show "map_of rc k \<noteq> None"
      by (metis (no_types, lifting) length_upt add_diff_cancel_right' map_of_zip_is_None)
  qed
qed

lemma search_with_memo_run:
  assumes "search_with_memo strs cfg = Inr res"
  obtains rc tbl a b c where
    "ratio_cache_of (length strs) (ratio_sum_max cfg) = Inr rc"
    "precompute_templates strs cfg rc = Inr (tbl, a, b, c)" "index_wf cfg tbl"
    "search_node cfg (length strs) tbl (initial_inventory strs) 0 (Map.empty, initial_stats a b c)
       = Inr res"
proof -
  from assms obtain rc tbl a b c where
    rc: "ratio_cache_of (length strs) (ratio_sum_max cfg) = Inr rc"
    and pre: "precompute_templates strs cfg rc = Inr (tbl, a, b, c)"
    and run: "search_node cfg (length strs) tbl (initial_inventory strs) 0
                (Map.empty, initial_stats a b c) = Inr res"
    unfolding search_with_memo_unfold by (auto split: sum.splits prod.splits)
  from that [OF rc pre ratio_cache_of_index_wf [OF rc pre] run] show ?thesis .
qed

subsection \<open>The phases' costs add up to the reported cost\<close>

definition costs_add_up :: "memo_key \<Rightarrow> xreal \<times> PhaseResult list \<Rightarrow> bool" where
  "costs_add_up k r \<longleftrightarrow> (case fst r of PInf \<Rightarrow> True | Fin c \<Rightarrow> sum_list (map cost_total (snd r)) = c)"

lemma index_wf_template:
  assumes "index_wf cfg tbl" "collect_candidates tbl active = Inr cands" "(cost, tmpl, nb) \<in> set cands"
  obtains key where "template_wf cfg key tmpl" "key \<subseteq> set (map fst active)"
    "num_batches_of active tmpl = Inr nb" "cost = nb * cost_per_batch tmpl"
proof -
  from collect_candidates_mem [OF assms(2,3)] obtain key ts where
    k: "(key, ts) \<in> set tbl" "key \<subseteq> set (map fst active)" "tmpl \<in> set ts"
      "num_batches_of active tmpl = Inr nb" "cost = nb * cost_per_batch tmpl"
    by blast
  from assms(1) k(1,3) have "template_wf cfg key tmpl"
    by (auto simp: index_wf_def list_all_iff)
  with k that show ?thesis by blast
qed

lemma search_node_costs_add_up:
  assumes run: "search_node cfg n tbl invt depth (memo, stats) = Inr ((c, ps), memo', stats')"
    and wf: "index_wf cfg tbl" and m: "memo_ok costs_add_up memo"
  shows "memo_ok costs_add_up memo' \<and> (\<forall>x. c = Fin x \<longrightarrow> sum_list (map cost_total ps) = x)"
proof -
  have inf: "\<And>k. costs_add_up k (PInf, [])" by (simp add: costs_add_up_def)
  have step: "costs_add_up (memo_key_of (active_of invt)) (Fin (cost + rc), phase # rps)"
    if "index_wf cfg tbl" "collect_candidates tbl (active_of invt) = Inr cands"
      "(cost, tmpl, nb) \<in> set cands" "make_phase cfg tmpl nb = Inr phase"
      "node_result_ok costs_add_up new_inv (Fin rc, rps)"
    for cfg tbl invt cands cost tmpl nb new_inv phase rc rps
  proof -
    from index_wf_template [OF that(1,2,3)] obtain key where
      k: "template_wf cfg key tmpl" "cost = nb * cost_per_batch tmpl" by blast
    from make_phase_cost [OF that(4)] k have "cost_total phase = cost"
      by (simp add: template_wf_def)
    moreover from that(5) have "sum_list (map cost_total rps) = rc"
      by (auto simp: node_result_ok_def costs_add_up_def)
    ultimately show ?thesis by (simp add: costs_add_up_def)
  qed
  from search_invariant(1) [where R = costs_add_up and Ctx = index_wf and Iv = "\<lambda>_. True",
      of cfg n tbl invt depth "(memo, stats)", OF inf step]
    run wf m
  have "memo_ok costs_add_up memo' \<and> node_result_ok costs_add_up invt (c, ps)" by simp
  then show ?thesis
    by (auto simp: node_result_ok_def costs_add_up_def)
qed

subsection \<open>Concrete inputs\<close>

definition stream_A :: WasteStream where
  "stream_A = \<lparr> stream_id = ''A'', quantity_L = 104 / 10, btu_per_lb = 4400, pH = 7,
                 f_ppm = 0, solid_pct = 0, salt_ppm = 0, moisture_pct = 0 \<rparr>"

definition stream_B :: WasteStream where
  "stream_B = \<lparr> stream_id = ''B'', quantity_L = 6 / 10, btu_per_lb = 0, pH = 7,
                 f_ppm = 0, solid_pct = 0, salt_ppm = 0, moisture_pct = 0 \<rparr>"

lemma blend_pH_const:
  assumes "list_all (\<lambda>p. p = p0) ps" "length ps = length rs" "0 < sum_list rs"
  shows "blend_pH ps rs = p0"
proof -
  have "(\<Sum>(p, ratio) \<leftarrow> zip ps rs. (10 powr (- p)) * of_int ratio) = 10 powr (- p0) * of_int (sum_list rs)"
    using assms(1,2)
  proof (induction ps arbitrary: rs)
    case Nil
    then show ?case by simp
  next
    case (Cons p ps)
    then obtain r rs' where rs: "rs = r # rs'" by (cases rs) auto
    with Cons show ?case by (simp add: algebra_simps)
  qed
  with assms(3) show ?thesis
    by (simp add: blend_pH_def Let_def)
qed

lemmas eval_defs =
  search_def search_with_memo_def ratio_cache_of_def precompute_templates_def dict_of_def
  all_subsets_def
  dict_get_def eval_template_def calc_blend_properties_def blend_linear_def
  gatekeeper_def calc_r_water_def calc_r_diesel_def calc_r_naoh_def calc_throughput_def
  fdiv_def ebind_def MAX_TEMPLATES_PER_SUBSET_def ACTIVE_THRESHOLD_L_def Let_def
  generate_ratios_def reduce_gcd_def default_config_def
  search_node.simps search_loop.simps active_of_def memo_key_of_def py_round_def
  collect_candidates_def num_batches_of_def update_inventory_def make_phase_def
  calc_phase_cost_def

lemma search_stream_A:
  "search [stream_A] default_config =
     Inr (Fin (1924 / 825),
          [\<lparr>streams = [(''A'', 1)],
            blend_props = \<lparr>bp_btu_per_lb = 4400, bp_pH = 7, bp_f_ppm = 0,
                            bp_solid_pct = 0, bp_salt_ppm = 0\<rparr>,
            r_water = 0, r_diesel = 0, r_naoh = 0, r_ext = 0, W = 11,
            runtime_min = 52 / 55, Q_phase = 52 / 5, cost_diesel = 0,
            cost_naoh = 0, cost_water = 0, cost_electricity = 208 / 275,
            cost_labor = 52 / 33, cost_total = 1924 / 825\<rparr>],
          \<lparr>evaluated = 1, pruned_infeasible = 0, templates_kept = 1,
            pruned_bound = 0, memo_hits = 0\<rparr>)"
  by (simp add: eval_defs stream_A_def blend_pH_const)

subsection \<open>Claim C3\<close>

lemma search_costs_add_up:
  assumes "search strs cfg = Inr (Fin c, ps, stats)"
  shows "sum_list (map cost_total ps) = c"
proof -
  from assms obtain memo' where
    sm: "search_with_memo strs cfg = Inr ((Fin c, ps), memo', stats)"
    by (auto simp: search_def split: sum.splits prod.splits)
  from sm obtain rc tbl a b c' where
    wf: "index_wf cfg tbl"
    and run: "search_node cfg (length strs) tbl (initial_inventory strs) 0
               (Map.empty, initial_stats a b c') = Inr ((Fin c, ps), memo', stats)"
    by (rule search_with_memo_run)
  have "memo_ok costs_add_up Map.empty" by (simp add: memo_ok_def)
  from search_node_costs_add_up [OF run wf this] show ?thesis by simp
qed

text \<open>
  Claim C3: whenever the root search returns a finite cost \<open>c\<close> with a phase list, the
  \<open>cost_total\<close> fields of the returned phases sum to \<open>c\<close> (in exact arithmetic), the
  assembled \<open>Schedule\<close> carries that same \<open>c\<close> as \<open>total_cost\<close>; and for every template the
  pre-computation builds, \<open>num_batches \<times> cost_per_batch\<close> equals \<open>calc_phase_cost\<close>'s
  \<open>cost_total\<close> at \<open>runtime_min = sum_ratios \<times> num_batches / W\<close>.
\<close>

theorem phase_costs_sum_to_total:
  assumes "search strs cfg = Inr (Fin c, ps, stats)"
  shows "sum_list (map cost_total ps) = c
    \<and> build_optimized_schedule strs cfg
        = Inr (Some \<lparr>phases = ps, total_cost = c,
                      total_runtime_min = sum_list (map runtime_min ps)\<rparr>, stats)
    \<and> (\<forall>comb ss rs t nb.
          eval_template cfg ((P_system cfg * cost_electricity_per_kWh cfg + cost_labor_per_hr cfg) / 60)
              comb ss rs = Inr (Some t)
          \<longrightarrow> nb * cost_per_batch t
              = c_total (calc_phase_cost (t_W t) (t_r_water t) (t_r_diesel t) (t_r_naoh t)
                           (of_int (sum_ratios t) * nb / t_W t) cfg))"
proof (intro conjI allI impI)
  show "sum_list (map cost_total ps) = c" by (rule search_costs_add_up [OF assms])
  show "build_optimized_schedule strs cfg
        = Inr (Some \<lparr>phases = ps, total_cost = c,
                      total_runtime_min = sum_list (map runtime_min ps)\<rparr>, stats)"
    using assms by (simp add: build_optimized_schedule_def)
next
  fix comb ss rs t nb
  assume "eval_template cfg ((P_system cfg * cost_electricity_per_kWh cfg + cost_labor_per_hr cfg) / 60)
              comb ss rs = Inr (Some t)"
  note f = eval_template_facts [OF this]
  show "nb * cost_per_batch t
          = c_total (calc_phase_cost (t_W t) (t_r_water t) (t_r_diesel t) (t_r_naoh t)
                       (of_int (sum_ratios t) * nb / t_W t) cfg)"
    unfolding phase_cost_algebra f(6) f(3) by simp
qed

theorem phase_costs_sum_to_total_witness:
  "\<exists>c ps stats. search [stream_A] default_config = Inr (Fin c, ps, stats)
      \<and> sum_list (map cost_total ps) = c \<and> c = 1924 / 825
      \<and> build_optimized_schedule [stream_A] default_config
          = Inr (Some \<lparr>phases = ps, total_cost = c,
                        total_runtime_min = sum_list (map runtime_min ps)\<rparr>, stats)"
  using phase_costs_sum_to_total [OF search_stream_A] search_stream_A by blast

subsection \<open>Claim C9: the template quota\<close>

definition streams_map_of :: "WasteStream list \<Rightarrow> (string \<times> WasteStream) list" where
  "streams_map_of strs = dict_of (map (\<lambda>s. (stream_id s, s)) strs)"

definition fixed_cost_per_min_of :: "SystemConfig \<Rightarrow> real" where
  "fixed_cost_per_min_of cfg =
     (P_system cfg * cost_electricity_per_kWh cfg + cost_labor_per_hr cfg) / 60"

text \<open>
  Every feasible template that the pre-computation evaluates for the subset \<open>comb\<close>
  (given as the sorted tuple of its identifiers), in evaluation order.
\<close>

definition evaluated_templates ::
  "WasteStream list \<Rightarrow> SystemConfig \<Rightarrow> (nat \<times> int list list) list \<Rightarrow> string list
    \<Rightarrow> PhaseTemplate list" where
  "evaluated_templates strs cfg ratio_cache comb =
     subset_templates cfg (fixed_cost_per_min_of cfg) (streams_map_of strs) ratio_cache comb"

lemma subsets_loop_map_of:
  "subsets_loop cfg fixed sm rc combs (tbl0, a, b, c) = Inr (tbl, a', b', c') \<Longrightarrow>
   inj_on set (insert comb0 (set combs)) \<Longrightarrow>
   (comb0 \<in> set combs \<longrightarrow>
      map_of tbl (set comb0) =
        (if subset_templates cfg fixed sm rc comb0 = [] then map_of tbl0 (set comb0)
         else Some (kept_templates (subset_templates cfg fixed sm rc comb0))))
   \<and> (comb0 \<notin> set combs \<longrightarrow> map_of tbl (set comb0) = map_of tbl0 (set comb0))"
proof (induction combs arbitrary: tbl0 a b c)
  case Nil
  then show ?case by simp
next
  case (Cons comb combs)
  from Cons.prems(1) obtain ss where ss: "sequence_err (map (dict_get sm) comb) = Inr ss"
    by (auto split: sum.splits)
  let ?rl = "ratios_for rc comb"
  from Cons.prems(1) ss obtain templates a1 b1 where
    rl: "ratios_loop cfg fixed comb ss ?rl ([], a, b) = Inr (templates, a1, b1)"
    by (auto simp: ratios_for_def Let_def split: sum.splits)
  from ratios_loop_feasible [OF rl] ss
  have tm: "templates = subset_templates cfg fixed sm rc comb"
    by (simp add: subset_templates_def)
  define tbl1 where
    "tbl1 = (if templates = [] then tbl0 else dict_set tbl0 (set comb) (kept_templates templates))"
  from Cons.prems(1) ss rl obtain c1 where
    run: "subsets_loop cfg fixed sm rc combs (tbl1, a1, b1, c1) = Inr (tbl, a', b', c')"
    by (cases "templates = []") (simp_all add: ratios_for_def Let_def kept_templates_def tbl1_def)
  from Cons.prems(2) have inj: "inj_on set (insert comb0 (set combs))"
    by (rule inj_on_subset) auto
  note IH = Cons.IH [OF run inj]
  have eqset: "set comb0 = set comb \<longleftrightarrow> comb0 = comb"
    using Cons.prems(2) by (auto simp: inj_on_def)
  have m1: "map_of tbl1 (set comb0) =
      (if comb0 = comb \<and> templates \<noteq> [] then Some (kept_templates templates)
       else map_of tbl0 (set comb0))"
    using eqset by (auto simp: tbl1_def map_of_dict_set)
  show ?case
  proof (cases "comb0 \<in> set combs")
    case True
    with IH m1 tm show ?thesis by auto
  next
    case False
    with IH m1 tm show ?thesis by auto
  qed
qed

lemma filter_in_combinations:
  "filter P xs \<in> set (combinations xs (length (filter P xs)))"
proof (induction xs)
  case Nil
  then show ?case by simp
next
  case (Cons x xs)
  show ?case
  proof (cases "P x")
    case True
    with Cons show ?thesis by simp
  next
    case False
    with Cons show ?thesis by (cases "length (filter P xs)") auto
  qed
qed

lemma subset_in_all_subsets:
  assumes "sorted ids" "distinct ids" "sorted comb" "distinct comb" "comb \<noteq> []" "set comb \<subseteq> set ids"
  shows "comb \<in> set (all_subsets ids)"
proof -
  let ?c = "filter (\<lambda>x. x \<in> set comb) ids"
  have "sorted ?c" "distinct ?c" "set ?c = set comb"
    using assms by (auto simp: sorted_filter [where f = "\<lambda>x. x", simplified])
  with assms(3,4) have eq: "?c = comb" by (intro sorted_distinct_set_unique) auto
  from assms(5) eq have pos: "1 \<le> length ?c" by (cases comb) auto
  have le: "length ?c \<le> length ids" by simp
  from pos le have "1 \<le> length ?c \<and> length ?c < length ids + 1" by linarith
  then have "length ?c \<in> set [1..<length ids + 1]"
    by (simp only: set_upt atLeastLessThan_iff)
  then have "?c \<in> set (all_subsets ids)"
    unfolding all_subsets_def set_concat set_map
    using filter_in_combinations [of "\<lambda>x. x \<in> set comb" ids] by blast
  with eq show ?thesis by simp
qed

lemma kept_templates_cheapest:
  "\<exists>rest. length (kept_templates ts) = min MAX_TEMPLATES_PER_SUBSET (length ts)
      \<and> mset (kept_templates ts @ rest) = mset ts
      \<and> sorted (map cost_per_batch (kept_templates ts))
      \<and> (\<forall>x \<in> set (kept_templates ts). \<forall>y \<in> set rest. cost_per_batch x \<le> cost_per_batch y)"
proof -
  let ?s = "sort_key cost_per_batch ts"
  let ?k = MAX_TEMPLATES_PER_SUBSET
  have s: "sorted (map cost_per_batch (take ?k ?s @ drop ?k ?s))" by simp
  then have "sorted (map cost_per_batch (take ?k ?s))"
    and "\<forall>x \<in> set (take ?k ?s). \<forall>y \<in> set (drop ?k ?s). cost_per_batch x \<le> cost_per_batch y"
    unfolding map_append sorted_append by auto
  moreover have "mset (take ?k ?s @ drop ?k ?s) = mset ts" by simp
  moreover have "length (take ?k ?s) = min ?k (length ts)" by simp
  ultimately show ?thesis unfolding kept_templates_def by blast
qed

text \<open>
  Claim C9: for every non-empty subset of the streams (written as the sorted tuple \<open>comb\<close>
  of its identifiers, as the code does), the index entry of the subset is absent when no
  evaluated combination is feasible; otherwise it holds \<open>min 30 (number feasible)\<close>
  templates (so at most 30, and all of them when fewer than 30 are feasible), sorted by
  cost per batch, which together with the dropped templates \<open>rest\<close> are exactly the feasible
  ones, and no dropped template is cheaper than a retained one.
\<close>

theorem precompute_keeps_cheapest:
  assumes "precompute_templates strs cfg rc = Inr (tbl, n_total, n_infeasible, n_feasible)"
    and "comb \<noteq> []" and "sorted comb" and "distinct comb"
    and "set comb \<subseteq> stream_id ` set strs"
  shows "(evaluated_templates strs cfg rc comb = [] \<longrightarrow> map_of tbl (set comb) = None)
    \<and> (evaluated_templates strs cfg rc comb \<noteq> [] \<longrightarrow>
         (\<exists>kept rest. map_of tbl (set comb) = Some kept
            \<and> length kept = min 30 (length (evaluated_templates strs cfg rc comb))
            \<and> mset (kept @ rest) = mset (evaluated_templates strs cfg rc comb)
            \<and> sorted (map cost_per_batch kept)
            \<and> (\<forall>x \<in> set kept. \<forall>y \<in> set rest. cost_per_batch x \<le> cost_per_batch y)))"
proof -
  define ids where "ids = sort (map fst (streams_map_of strs))"
  from assms(1) have run:
    "subsets_loop cfg (fixed_cost_per_min_of cfg) (streams_map_of strs) rc (all_subsets ids)
        ([], 0, 0, 0) = Inr (tbl, n_total, n_infeasible, n_feasible)"
    by (simp add: precompute_templates_def Let_def streams_map_of_def ids_def
        fixed_cost_per_min_of_def)
  have sorted: "sorted ids" and dist: "distinct ids"
    by (simp_all add: ids_def streams_map_of_def distinct_dict_of)
  have "set ids = stream_id ` set strs"
    using fst_set_dict_of [of "map (\<lambda>s. (stream_id s, s)) strs"]
    by (simp add: ids_def streams_map_of_def image_image)
  with assms(5) have "set comb \<subseteq> set ids" by simp
  from subset_in_all_subsets [OF sorted dist assms(3,4,2) this]
  have mem: "comb \<in> set (all_subsets ids)" .
  then have "insert comb (set (all_subsets ids)) = set (all_subsets ids)" by auto
  with all_subsets_inj [OF sorted dist]
  have inj: "inj_on set (insert comb (set (all_subsets ids)))" by simp
  from subsets_loop_map_of [OF run inj] mem
  have m: "map_of tbl (set comb) =
      (if evaluated_templates strs cfg rc comb = [] then None
       else Some (kept_templates (evaluated_templates strs cfg rc comb)))"
    by (simp add: evaluated_templates_def)
  from kept_templates_cheapest [of "evaluated_templates strs cfg rc comb"] m
  show ?thesis by (auto simp: MAX_TEMPLATES_PER_SUBSET_def)
qed

lemma evaluated_templates_stream_A:
  "evaluated_templates [stream_A] default_config [(1, [[1]])] [''A''] =
     [\<lparr>stream_ids = [''A''], ratios = [1],
       blend = \<lparr>bp_btu_per_lb = 4400, bp_pH = 7, bp_f_ppm = 0, bp_solid_pct = 0, bp_salt_ppm = 0\<rparr>,
       t_r_water = 0, t_r_diesel = 0, t_r_naoh = 0, t_r_ext = 0,
       t_W = 11, cost_per_batch = 37 / 165, sum_ratios = 1\<rparr>]"
  by (simp add: evaluated_templates_def subset_templates_def feasible_templates_def ratios_for_def
      streams_map_of_def fixed_cost_per_min_of_def eval_defs stream_A_def blend_pH_const)

lemma precompute_stream_A:
  "precompute_templates [stream_A] default_config [(1, [[1]])] =
     Inr ([({''A''},
            [\<lparr>stream_ids = [''A''], ratios = [1],
              blend = \<lparr>bp_btu_per_lb = 4400, bp_pH = 7, bp_f_ppm = 0, bp_solid_pct = 0,
                        bp_salt_ppm = 0\<rparr>,
              t_r_water = 0, t_r_diesel = 0, t_r_naoh = 0, t_r_ext = 0,
              t_W = 11, cost_per_batch = 37 / 165, sum_ratios = 1\<rparr>])], 1, 0, 1)"
  by (simp add: eval_defs stream_A_def blend_pH_const)

theorem precompute_keeps_cheapest_witness:
  "\<exists>tbl a b c kept rest.
      precompute_templates [stream_A] default_config [(1, [[1]])] = Inr (tbl, a, b, c)
      \<and> [''A''] \<noteq> [] \<and> sorted [''A''] \<and> distinct [''A'']
      \<and> set [''A''] \<subseteq> stream_id ` set [stream_A]
      \<and> evaluated_templates [stream_A] default_config [(1, [[1]])] [''A''] \<noteq> []
      \<and> map_of tbl (set [''A'']) = Some kept
      \<and> length kept = min 30 (length (evaluated_templates [stream_A] default_config [(1, [[1]])] [''A'']))
      \<and> mset (kept @ rest) = mset (evaluated_templates [stream_A] default_config [(1, [[1]])] [''A''])"
proof -
  have h: "[''A''] \<noteq> []" "sorted [''A'']" "distinct [''A'']"
      "set [''A''] \<subseteq> stream_id ` set [stream_A]"
    by (simp_all add: stream_A_def)
  have ne: "evaluated_templates [stream_A] default_config [(1, [[1]])] [''A''] \<noteq> []"
    unfolding evaluated_templates_stream_A by simp
  from precompute_keeps_cheapest [OF precompute_stream_A h] ne precompute_stream_A h
  show ?thesis by blast
qed

subsection \<open>Claim C5: infeasible inputs and dead ends\<close>

text \<open>The test suite's strongly alkaline stream (pH 14, above \<open>pH_max\<close>), with 0.3 L and with 100 L.\<close>

definition strong_base :: "real \<Rightarrow> WasteStream" where
  "strong_base q = \<lparr> stream_id = ''StrongBase'', quantity_L = q, btu_per_lb = 2000, pH = 14,
                      f_ppm = 0, solid_pct = 0, salt_ppm = 0, moisture_pct = 100 \<rparr>"

text \<open>No retained template is applicable to the active streams of \<open>invt\<close>.\<close>

definition no_applicable_template :: "templates_index \<Rightarrow> string set \<Rightarrow> bool" where
  "no_applicable_template tbl active_ids \<longleftrightarrow>
     list_all (\<lambda>(key, ts). key \<subseteq> active_ids \<longrightarrow> ts = []) tbl"

definition dead_end_ok :: "templates_index \<Rightarrow> memo_key \<Rightarrow> xreal \<times> PhaseResult list \<Rightarrow> bool" where
  "dead_end_ok tbl k r \<longleftrightarrow> (no_applicable_template tbl (fst ` k) \<longrightarrow> r = (PInf, []))"

lemma no_applicable_template_iff:
  "no_applicable_template tbl ids \<longleftrightarrow> (\<forall>key ts. (key, ts) \<in> set tbl \<longrightarrow> key \<subseteq> ids \<longrightarrow> ts = [])"
  unfolding no_applicable_template_def list_all_iff by fastforce

lemma fst_memo_key_of: "fst ` memo_key_of active = set (map fst active)"
  by (force simp: memo_key_of_def image_iff)

lemma search_loop_no_candidates:
  "search_loop cfg n tbl invt active depth [] best st = Inr (best, st)"
  by simp

lemma collect_candidates_dead_end:
  assumes "no_applicable_template tbl (set (map fst active))"
  shows "\<exists>cands. collect_candidates tbl active = Inr cands \<and> cands = []"
proof -
  let ?g = "\<lambda>tmpl. ebind (num_batches_of active tmpl)
                              (\<lambda>nb. Inr (nb * cost_per_batch tmpl, tmpl, nb))"
  let ?f = "\<lambda>(subset_key, templates).
              if \<not> subset_key \<subseteq> set (map fst active) then Inr []
              else sequence_err (map ?g templates)"
  have "?f kt = Inr []" if "kt \<in> set tbl" for kt
  proof (cases kt)
    case (Pair key ts)
    show ?thesis
    proof (cases "key \<subseteq> set (map fst active)")
      case True
      with assms that Pair have "ts = []" unfolding no_applicable_template_iff by blast
      with Pair show ?thesis by simp
    next
      case False
      with Pair show ?thesis by simp
    qed
  qed
  then have "map ?f tbl = map Inr (map (\<lambda>_. []) tbl)"
    by simp
  then have "sequence_err (map ?f tbl) = Inr (map (\<lambda>_. []) tbl)"
    by (simp only: sequence_err_map_Inr)
  then show ?thesis
    by (simp add: collect_candidates_def Let_def ebind_def)
qed

lemma search_node_dead_end:
  assumes run: "search_node cfg n tbl invt depth (memo, stats) = Inr (r, memo', stats')"
    and m: "memo_ok (dead_end_ok tbl) memo"
  shows "memo_ok (dead_end_ok tbl) memo'
    \<and> (active_of invt \<noteq> [] \<and> no_applicable_template tbl (set (map fst (active_of invt)))
        \<longrightarrow> r = (PInf, []))"
proof -
  have inf: "\<And>k. dead_end_ok tbl k (PInf, [])" by (simp add: dead_end_ok_def)
  have step: "dead_end_ok tbl (memo_key_of (active_of invt)) (Fin (cost + rc), phase # rps)"
    if "tbl' = tbl" "collect_candidates tbl' (active_of invt) = Inr cands"
      "(cost, tmpl, nb) \<in> set cands"
    for cfg :: SystemConfig and tbl' invt cands cost tmpl nb phase rc rps
  proof -
    from collect_candidates_mem [OF that(2,3)] that(1) obtain key ts where
      "(key, ts) \<in> set tbl" "key \<subseteq> set (map fst (active_of invt))" "tmpl \<in> set ts"
      by blast
    then have "\<not> no_applicable_template tbl (set (map fst (active_of invt)))"
      unfolding no_applicable_template_iff by force
    then show ?thesis by (simp add: dead_end_ok_def fst_memo_key_of)
  qed
  from search_invariant(1) [where R = "dead_end_ok tbl" and Ctx = "\<lambda>c t. t = tbl"
      and Iv = "\<lambda>_. True", of cfg n tbl invt depth "(memo, stats)", OF inf step]
    run m
  have "memo_ok (dead_end_ok tbl) memo' \<and> node_result_ok (dead_end_ok tbl) invt r" by simp
  then show ?thesis
    by (auto simp: node_result_ok_def dead_end_ok_def fst_memo_key_of)
qed

lemma search_empty_index:
  assumes rc: "ratio_cache_of (length strs) (ratio_sum_max cfg) = Inr rc"
    and pre: "precompute_templates strs cfg rc = Inr ([], a, b, c)"
    and act: "active_of (initial_inventory strs) \<noteq> []"
  shows "search strs cfg = Inr (PInf, [], initial_stats a b c)"
proof -
  have cc: "collect_candidates [] (active_of (initial_inventory strs)) = Inr []"
    by (simp add: collect_candidates_def Let_def ebind_def)
  have "search_node cfg (length strs) [] (initial_inventory strs) 0 (Map.empty, initial_stats a b c)
      = Inr ((PInf, []), Map.empty(memo_key_of (active_of (initial_inventory strs)) \<mapsto> (PInf, [])),
             initial_stats a b c)"
    using act cc by (simp add: search_node.simps Let_def)
  with rc pre show ?thesis
    by (simp add: search_def search_with_memo_unfold)
qed

lemma ratio_cache_of_1: "ratio_cache_of 1 m = Inr [(1, [[1]])]"
  by (simp add: ratio_cache_of_def generate_ratios_def)

lemma precompute_strong_base:
  "precompute_templates [strong_base q] default_config [(1, [[1]])] = Inr ([], 1, 1, 0)"
  by (simp add: eval_defs strong_base_def blend_pH_const)

text \<open>
  Claim C5, as stated, on the single stream \<open>StrongBase\<close> of 0.3 L (a strictly positive
  quantity), whose only ratio vector is infeasible (pH 14 exceeds \<open>pH_max\<close>): the index is
  empty, yet the search returns cost 0 and \<open>build_optimized_schedule\<close> a zero-cost schedule.
\<close>

theorem infeasible_small_inventory_counterexample:
  "precompute_templates [strong_base (3 / 10)] default_config [(1, [[1]])] = Inr ([], 1, 1, 0)
   \<and> search [strong_base (3 / 10)] default_config
       = Inr (Fin 0, [], \<lparr>evaluated = 1, pruned_infeasible = 1, templates_kept = 0,
                            pruned_bound = 0, memo_hits = 0\<rparr>)
   \<and> build_optimized_schedule [strong_base (3 / 10)] default_config
       = Inr (Some \<lparr>phases = [], total_cost = 0, total_runtime_min = 0\<rparr>,
              \<lparr>evaluated = 1, pruned_infeasible = 1, templates_kept = 0,
               pruned_bound = 0, memo_hits = 0\<rparr>)"
  by (simp add: build_optimized_schedule_def eval_defs strong_base_def blend_pH_const)

text \<open>
  Claim C5, amended: if the pre-computation retains no template at all (every
  (subset, ratio) combination is infeasible) and at least one stream holds more than the
  active threshold of 0.5 L, the root search returns \<open>(+infinity, [])\<close> and
  \<open>build_optimized_schedule\<close> returns no schedule. Moreover the search keeps the memo table
  such that every entry cached for a set of active streams with no applicable retained
  template is \<open>(+infinity, [])\<close>, and with such a memo table every non-terminal state with
  no applicable retained template returns \<open>(+infinity, [])\<close>; and a parent never takes a
  branch whose residual cost is \<open>+infinity\<close>, whatever its \<open>best_sub_cost\<close>.
\<close>

theorem infeasible_returns_infinity:
  "(ratio_cache_of (length strs) (ratio_sum_max cfg) = Inr rc
      \<and> precompute_templates strs cfg rc = Inr ([], a, b, c)
      \<and> active_of (initial_inventory strs) \<noteq> []
    \<longrightarrow> search strs cfg = Inr (PInf, [], initial_stats a b c)
        \<and> build_optimized_schedule strs cfg = Inr (None, initial_stats a b c))
   \<and> (search_node cfg n tbl invt depth (memo, stats) = Inr (r, memo', stats')
      \<and> memo_ok (dead_end_ok tbl) memo
    \<longrightarrow> memo_ok (dead_end_ok tbl) memo'
        \<and> (active_of invt \<noteq> [] \<and> no_applicable_template tbl (set (map fst (active_of invt)))
            \<longrightarrow> r = (PInf, [])))
   \<and> \<not> xless (xadd cost PInf) best"
proof (intro conjI impI)
  assume h: "ratio_cache_of (length strs) (ratio_sum_max cfg) = Inr rc
      \<and> precompute_templates strs cfg rc = Inr ([], a, b, c)
      \<and> active_of (initial_inventory strs) \<noteq> []"
  then have s: "search strs cfg = Inr (PInf, [], initial_stats a b c)"
    using search_empty_index by blast
  then show "search strs cfg = Inr (PInf, [], initial_stats a b c)" .
  from s show "build_optimized_schedule strs cfg = Inr (None, initial_stats a b c)"
    by (simp add: build_optimized_schedule_def)
next
  assume h: "search_node cfg n tbl invt depth (memo, stats) = Inr (r, memo', stats')
      \<and> memo_ok (dead_end_ok tbl) memo"
  with search_node_dead_end [of cfg n tbl invt depth memo stats r memo' stats']
  show "memo_ok (dead_end_ok tbl) memo'" by blast
  assume "active_of invt \<noteq> [] \<and> no_applicable_template tbl (set (map fst (active_of invt)))"
  with h search_node_dead_end [of cfg n tbl invt depth memo stats r memo' stats']
  show "r = (PInf, [])" by blast
next
  show "\<not> xless (xadd cost PInf) best" by simp
qed

theorem infeasible_returns_infinity_witness:
  "ratio_cache_of (length [strong_base 100]) (ratio_sum_max default_config) = Inr [(1, [[1]])]
   \<and> precompute_templates [strong_base 100] default_config [(1, [[1]])] = Inr ([], 1, 1, 0)
   \<and> active_of (initial_inventory [strong_base 100]) \<noteq> []
   \<and> search [strong_base 100] default_config = Inr (PInf, [], initial_stats 1 1 0)
   \<and> build_optimized_schedule [strong_base 100] default_config = Inr (None, initial_stats 1 1 0)
   \<and> memo_ok (dead_end_ok []) Map.empty
   \<and> no_applicable_template [] (set (map fst (active_of [(''StrongBase'', 100)])))
   \<and> search_node default_config 1 [] [(''StrongBase'', 100)] 0 (Map.empty, initial_stats 1 1 0)
       = Inr ((PInf, []), Map.empty({(''StrongBase'', 100)} \<mapsto> (PInf, [])), initial_stats 1 1 0)"
proof -
  have rc: "ratio_cache_of (length [strong_base 100]) (ratio_sum_max default_config) = Inr [(1, [[1]])]"
    using ratio_cache_of_1 by simp
  have act: "active_of (initial_inventory [strong_base 100]) \<noteq> []"
    by (simp add: initial_inventory_def dict_of_def strong_base_def active_of_def
        ACTIVE_THRESHOLD_L_def)
  have m: "memo_ok (dead_end_ok []) Map.empty" by (simp add: memo_ok_def)
  have na: "no_applicable_template [] (set (map fst (active_of [(''StrongBase'', 100)])))"
    by (simp add: no_applicable_template_def)
  have run: "search_node default_config 1 [] [(''StrongBase'', 100)] 0 (Map.empty, initial_stats 1 1 0)
       = Inr ((PInf, []), Map.empty({(''StrongBase'', 100)} \<mapsto> (PInf, [])), initial_stats 1 1 0)"
    by (simp add: eval_defs)
  from infeasible_returns_infinity [where strs = "[strong_base 100]" and cfg = default_config
      and rc = "[(1, [[1]])]" and a = 1 and b = 1 and c = 0 and n = 1 and tbl = "[]"
      and invt = "[(''StrongBase'', 100)]" and depth = 0 and memo = Map.empty
      and stats = "initial_stats 1 1 0" and r = "(PInf, [])"
      and memo' = "Map.empty({(''StrongBase'', 100)} \<mapsto> (PInf, []))"
      and stats' = "initial_stats 1 1 0"]
    rc precompute_strong_base [of 100] act m na run
  show ?thesis by simp
qed

subsection \<open>One expansion step\<close>

lemma map_of_active_of:
  assumes "distinct (map fst invt)"
  shows "map_of (active_of invt) sid =
           (case map_of invt sid of
              Some q \<Rightarrow> if ACTIVE_THRESHOLD_L < q then Some q else None
            | None \<Rightarrow> None)"
  using assms
proof (induction invt)
  case Nil
  then show ?case by (simp add: active_of_def)
next
  case (Cons p invt)
  obtain k v where p: "p = (k, v)" by (cases p)
  from Cons.prems p have nk: "k \<notin> fst ` set invt" and d: "distinct (map fst invt)" by auto
  from nk have none: "map_of invt k = None" by (simp add: map_of_eq_None_iff)
  from Cons.IH [OF d] have IH: "map_of (filter (\<lambda>(sid, qty). ACTIVE_THRESHOLD_L < qty) invt) sid =
           (case map_of invt sid of
              Some q \<Rightarrow> if ACTIVE_THRESHOLD_L < q then Some q else None
            | None \<Rightarrow> None)"
    by (simp add: active_of_def)
  show ?case
    unfolding active_of_def p using IH none by (auto split: option.splits)
qed

lemma active_ids_iff:
  assumes "distinct (map fst invt)"
  shows "sid \<in> set (map fst (active_of invt))
           \<longleftrightarrow> (\<exists>q. map_of invt sid = Some q \<and> ACTIVE_THRESHOLD_L < q)"
proof -
  have "sid \<in> set (map fst (active_of invt)) \<longleftrightarrow> map_of (active_of invt) sid \<noteq> None"
    by (simp add: map_of_eq_None_iff)
  also have "\<dots> \<longleftrightarrow> (\<exists>q. map_of invt sid = Some q \<and> ACTIVE_THRESHOLD_L < q)"
    unfolding map_of_active_of [OF assms] by (auto split: option.splits)
  finally show ?thesis .
qed

lemma distinct_active_of: "distinct (map fst invt) \<Longrightarrow> distinct (map fst (active_of invt))"
  unfolding active_of_def by (rule distinct_map_filter)

text \<open>The loop that assigns \<^verbatim>\<open>new_inv[sid]\<close>, for any list of (sid, ratio) pairs.\<close>

definition assign_step ::
  "inventory \<Rightarrow> real \<Rightarrow> string \<times> int \<Rightarrow> py_error + inventory \<Rightarrow> py_error + inventory" where
  "assign_step active nb = (\<lambda>(sid, ratio) acc.
             ebind acc (\<lambda>new_inv.
             ebind (dict_get active sid) (\<lambda>q.
               Inr (dict_set new_inv sid (q - of_int ratio * nb)))))"

lemma update_inventory_fold:
  "update_inventory invt active tmpl nb
     = fold (assign_step active nb) (zip (stream_ids tmpl) (ratios tmpl)) (Inr invt)"
  by (simp add: update_inventory_def assign_step_def)

lemma fold_assign_step_Inl: "fold (assign_step active nb) ps (Inl e) = Inl e"
  by (induction ps) (auto simp: assign_step_def ebind_def)

lemma fold_assign_step:
  assumes "fold (assign_step active nb) ps (Inr d) = Inr d'" and "distinct (map fst ps)"
  shows "map_of d' sid =
           (case map_of ps sid of
              Some r \<Rightarrow> Some (the (map_of active sid) - of_int r * nb)
            | None \<Rightarrow> map_of d sid)"
    and "fst ` set d' = fst ` set d \<union> fst ` set ps"
    and "distinct (map fst d) \<Longrightarrow> distinct (map fst d')"
    and "fst ` set ps \<subseteq> fst ` set active"
  using assms
proof (induction ps arbitrary: d)
  case Nil
  { case 1 then show ?case by simp }
  { case 2 then show ?case by simp }
  { case 3 then show ?case by simp }
  { case 4 then show ?case by simp }
next
  case (Cons p ps)
  obtain k r where p: "p = (k, r)" by (cases p)
  have step: "\<exists>q. map_of active k = Some q
      \<and> fold (assign_step active nb) ps (Inr (dict_set d k (q - of_int r * nb))) = Inr d'"
    if "fold (assign_step active nb) (p # ps) (Inr d) = Inr d'" for d d'
  proof -
    have one: "assign_step active nb (k, r) (Inr d) =
        (case map_of active k of None \<Rightarrow> Inl KeyError
         | Some q \<Rightarrow> Inr (dict_set d k (q - of_int r * nb)))"
      by (simp add: assign_step_def ebind_def dict_get_def split: option.splits)
    from that have f: "fold (assign_step active nb) ps (assign_step active nb (k, r) (Inr d)) = Inr d'"
      by (simp add: p)
    show ?thesis
    proof (cases "map_of active k")
      case None
      with f one show ?thesis by (simp add: fold_assign_step_Inl)
    next
      case (Some q)
      with f one show ?thesis by simp
    qed
  qed
  { case 1
    from step [OF "1"(1)] obtain q where q: "map_of active k = Some q"
      and f: "fold (assign_step active nb) ps (Inr (dict_set d k (q - of_int r * nb))) = Inr d'"
      by blast
    from "1"(2) p have dps: "distinct (map fst ps)" and nk: "k \<notin> fst ` set ps" by auto
    from nk have "map_of ps k = None" by (simp add: map_of_eq_None_iff)
    with Cons.IH(1) [OF f dps] q show ?case
      by (auto simp: p map_of_dict_set split: option.splits) }
  { case 2
    from step [OF "2"(1)] obtain q where q: "map_of active k = Some q"
      and f: "fold (assign_step active nb) ps (Inr (dict_set d k (q - of_int r * nb))) = Inr d'"
      by blast
    from "2"(2) p have dps: "distinct (map fst ps)" by auto
    from Cons.IH(2) [OF f dps] show ?case
      by (auto simp: p fst_set_dict_set) }
  { case 3
    from step [OF "3"(2)] obtain q where q: "map_of active k = Some q"
      and f: "fold (assign_step active nb) ps (Inr (dict_set d k (q - of_int r * nb))) = Inr d'"
      by blast
    from "3"(3) p have dps: "distinct (map fst ps)" by auto
    from Cons.IH(3) [OF _ f dps] "3"(1) show ?case
      by (simp add: distinct_dict_set) }
  { case 4
    from step [OF "4"(1)] obtain q where q: "map_of active k = Some q"
      and f: "fold (assign_step active nb) ps (Inr (dict_set d k (q - of_int r * nb))) = Inr d'"
      by blast
    from "4"(2) p have dps: "distinct (map fst ps)" by auto
    from q have "k \<in> fst ` set active" by (metis map_of_eq_None_iff option.distinct(1))
    with Cons.IH(4) [OF f dps] show ?case by (simp add: p) }
qed

lemma num_batches_of_min:
  assumes "num_batches_of active tmpl = Inr nb"
  shows "\<forall>(sid, r) \<in> set (zip (stream_ids tmpl) (ratios tmpl)).
           \<exists>q. map_of active sid = Some q \<and> r \<noteq> 0 \<and> nb \<le> q / of_int r"
    and "\<exists>(sid, r) \<in> set (zip (stream_ids tmpl) (ratios tmpl)).
           \<exists>q. map_of active sid = Some q \<and> r \<noteq> 0 \<and> nb = q / of_int r"
proof -
  let ?g = "\<lambda>(sid, ratio). ebind (dict_get active sid) (\<lambda>q. fdiv q (of_int ratio))"
  let ?zs = "zip (stream_ids tmpl) (ratios tmpl)"
  from assms obtain qs where qs: "sequence_err (map ?g ?zs) = Inr qs"
    and nb: "(case qs of [] \<Rightarrow> Inl ValueError | q # qs' \<Rightarrow> Inr (fold min qs' q)) = Inr nb"
    by (auto simp: num_batches_of_def ebind_Inr_iff)
  from nb obtain q0 qs' where q0: "qs = q0 # qs'" and "nb = fold min qs' q0"
    by (cases qs) auto
  then have nbmin: "nb = Min (set qs)" using Min.set_eq_fold [of q0 qs'] by simp
  have g: "?g (sid, r) = Inr y \<Longrightarrow> \<exists>q. map_of active sid = Some q \<and> r \<noteq> 0 \<and> y = q / of_int r"
    for sid r y
    by (auto simp: ebind_Inr_iff dict_get_def fdiv_def split: option.splits if_splits)
  show "\<forall>(sid, r) \<in> set ?zs. \<exists>q. map_of active sid = Some q \<and> r \<noteq> 0 \<and> nb \<le> q / of_int r"
  proof (clarify)
    fix sid r assume "(sid, r) \<in> set ?zs"
    from sequence_err_map_mem2 [OF qs this] obtain y where y: "y \<in> set qs" "?g (sid, r) = Inr y"
      by blast
    from g [OF y(2)] obtain q where q: "map_of active sid = Some q" "r \<noteq> 0" "y = q / of_int r"
      by blast
    from y(1) nbmin have "nb \<le> y" by simp
    with q show "\<exists>q. map_of active sid = Some q \<and> r \<noteq> 0 \<and> nb \<le> q / of_int r" by blast
  qed
  from q0 nbmin have "nb \<in> set qs" using Min_in [of "set qs"] by simp
  from sequence_err_map_mem [OF qs this] obtain z where z: "z \<in> set ?zs" "?g z = Inr nb"
    by blast
  obtain sid r where zz: "z = (sid, r)" by (cases z)
  from g [of sid r nb] z(2) zz obtain q where "map_of active sid = Some q" "r \<noteq> 0" "nb = q / of_int r"
    by auto
  with z(1) zz show "\<exists>(sid, r) \<in> set ?zs. \<exists>q. map_of active sid = Some q \<and> r \<noteq> 0 \<and> nb = q / of_int r"
    by blast
qed

lemma expansion_step:
  assumes d: "distinct (map fst invt)"
    and wf: "template_wf cfg key tmpl"
    and sub: "key \<subseteq> set (map fst (active_of invt))"
    and nb: "num_batches_of (active_of invt) tmpl = Inr nb"
    and upd: "update_inventory invt (active_of invt) tmpl nb = Inr new_inv"
  shows "0 < nb"
    and "distinct (map fst new_inv)"
    and "fst ` set new_inv = fst ` set invt"
    and "\<exists>sid \<in> key. map_of new_inv sid = Some 0"
    and "set (map fst (active_of new_inv)) \<subset> set (map fst (active_of invt))"
    and "(\<forall>(sid, q) \<in> set invt. 0 \<le> q) \<Longrightarrow> (\<forall>(sid, q) \<in> set new_inv. 0 \<le> q)"
    and "\<forall>sid q'. map_of new_inv sid = Some q' \<longrightarrow>
           (\<exists>q. map_of invt sid = Some q \<and> q' \<le> q \<and> (sid \<notin> key \<longrightarrow> q' = q) \<and> (sid \<in> key \<longrightarrow> 0 \<le> q'))"
proof -
  let ?act = "active_of invt"
  let ?zs = "zip (stream_ids tmpl) (ratios tmpl)"
  from wf have ids: "set (stream_ids tmpl) = key" "distinct (stream_ids tmpl)"
    and len: "length (ratios tmpl) = length (stream_ids tmpl)"
    and pos: "\<forall>r \<in> set (ratios tmpl). 1 \<le> r"
    by (simp_all add: template_wf_def list_all_iff)
  from len have fstzs: "map fst ?zs = stream_ids tmpl" by simp
  with ids have dzs: "distinct (map fst ?zs)" and keyzs: "fst ` set ?zs = key"
    by (simp_all del: map_fst_zip) (metis ids(1) list.set_map)
  note mn = num_batches_of_min [OF nb]
  have act: "map_of ?act sid = Some q \<Longrightarrow> map_of invt sid = Some q \<and> 1 / 2 < q" for sid q
    unfolding map_of_active_of [OF d] ACTIVE_THRESHOLD_L_def
    by (auto split: option.splits if_splits)
  have zr: "(sid, r) \<in> set ?zs \<Longrightarrow> 1 \<le> r \<and> map_of ?zs sid = Some r" for sid r
    using pos dzs by (auto dest: set_zip_rightD)
  from mn(2) obtain sid0 r0 q0 where m0: "(sid0, r0) \<in> set ?zs" "map_of ?act sid0 = Some q0"
      "nb = q0 / of_int r0"
    by blast
  from zr [OF m0(1)] act [OF m0(2)] m0(3) show nbpos: "0 < nb" by simp
  from upd have fold: "fold (assign_step ?act nb) ?zs (Inr invt) = Inr new_inv"
    by (simp add: update_inventory_fold)
  note fa = fold_assign_step [OF fold dzs]
  from fa(3) [OF d] show dn: "distinct (map fst new_inv)" .
  have "key \<subseteq> fst ` set invt"
    using sub by (auto simp: active_of_def)
  with fa(2) keyzs show "fst ` set new_inv = fst ` set invt" by auto
  have val: "\<exists>q. map_of invt sid = Some q \<and> 1 / 2 < q
                \<and> map_of new_inv sid = Some (q - of_int r * nb) \<and> 0 \<le> q - of_int r * nb
                \<and> q - of_int r * nb \<le> q"
    if "(sid, r) \<in> set ?zs" for sid r
  proof -
    from mn(1) that obtain q where q: "map_of ?act sid = Some q" "nb \<le> q / of_int r" by blast
    from zr [OF that] have r: "1 \<le> r" "map_of ?zs sid = Some r" by simp_all
    from r(1) q(2) have "of_int r * nb \<le> q"
      by (simp add: pos_le_divide_eq mult.commute)
    moreover from r(1) nbpos have "0 \<le> of_int r * nb" by simp
    moreover from fa(1) [of sid] r(2) q(1) have "map_of new_inv sid = Some (q - of_int r * nb)"
      by simp
    ultimately show ?thesis using act [OF q(1)] by auto
  qed
  have other: "map_of new_inv sid = map_of invt sid" if "sid \<notin> key" for sid
  proof -
    from that keyzs have "map_of ?zs sid = None" by (simp add: map_of_eq_None_iff)
    with fa(1) [of sid] show ?thesis by simp
  qed
  have inkey: "sid \<in> key \<Longrightarrow> \<exists>r. (sid, r) \<in> set ?zs" for sid
    using keyzs by force
  from val [OF m0(1)] m0(2,3) zr [OF m0(1)] act [OF m0(2)]
  have zero: "map_of new_inv sid0 = Some 0" by auto
  from m0(1) keyzs have s0: "sid0 \<in> key" by force
  with zero show "\<exists>sid \<in> key. map_of new_inv sid = Some 0" by blast
  show "set (map fst (active_of new_inv)) \<subset> set (map fst (active_of invt))"
  proof
    show "set (map fst (active_of new_inv)) \<subseteq> set (map fst (active_of invt))"
    proof
      fix sid assume "sid \<in> set (map fst (active_of new_inv))"
      then obtain q' where q': "map_of new_inv sid = Some q'" "1 / 2 < q'"
        unfolding active_ids_iff [OF dn] ACTIVE_THRESHOLD_L_def by blast
      show "sid \<in> set (map fst (active_of invt))"
      proof (cases "sid \<in> key")
        case True
        with sub show ?thesis by auto
      next
        case False
        with other q' show ?thesis
          unfolding active_ids_iff [OF d] ACTIVE_THRESHOLD_L_def by auto
      qed
    qed
    have "sid0 \<notin> set (map fst (active_of new_inv))"
      unfolding active_ids_iff [OF dn] ACTIVE_THRESHOLD_L_def using zero by simp
    moreover from s0 sub have "sid0 \<in> set (map fst (active_of invt))" by auto
    ultimately show "set (map fst (active_of new_inv)) \<noteq> set (map fst (active_of invt))" by blast
  qed
  show all: "\<forall>sid q'. map_of new_inv sid = Some q' \<longrightarrow>
           (\<exists>q. map_of invt sid = Some q \<and> q' \<le> q \<and> (sid \<notin> key \<longrightarrow> q' = q) \<and> (sid \<in> key \<longrightarrow> 0 \<le> q'))"
  proof (intro allI impI)
    fix sid q' assume n: "map_of new_inv sid = Some q'"
    show "\<exists>q. map_of invt sid = Some q \<and> q' \<le> q \<and> (sid \<notin> key \<longrightarrow> q' = q) \<and> (sid \<in> key \<longrightarrow> 0 \<le> q')"
    proof (cases "sid \<in> key")
      case True
      from inkey [OF True] obtain r where "(sid, r) \<in> set ?zs" by blast
      from val [OF this] n True show ?thesis by auto
    next
      case False
      with other n show ?thesis by auto
    qed
  qed
  show "\<forall>(sid, q) \<in> set new_inv. 0 \<le> q" if nn: "\<forall>(sid, q) \<in> set invt. 0 \<le> q"
  proof (clarify)
    fix sid q' assume "(sid, q') \<in> set new_inv"
    with dn have "map_of new_inv sid = Some q'" by simp
    with all obtain q where q: "map_of invt sid = Some q" "sid \<notin> key \<longrightarrow> q' = q" "sid \<in> key \<longrightarrow> 0 \<le> q'"
      by blast
    from q(1) have "(sid, q) \<in> set invt" by (rule map_of_SomeD)
    with nn have "0 \<le> q" by auto
    with q show "0 \<le> q'" by auto
  qed
qed

subsection \<open>Claim C10: every phase depletes a stream\<close>

text \<open>
  The states on which \<^verbatim>\<open>_search\<close> can be called in a run started on \<open>inv0\<close>: the root
  at depth 0 and, from any call that gets past the terminal test and the depth bound, the
  reduced inventory of any of its candidates, one level deeper (whether or not the memo
  table or the pruning rule lets the loop reach that candidate).
\<close>

inductive reachable :: "templates_index \<Rightarrow> nat \<Rightarrow> inventory \<Rightarrow> inventory \<Rightarrow> nat \<Rightarrow> bool"
  for tbl :: templates_index and n :: nat and inv0 :: inventory where
  root: "reachable tbl n inv0 inv0 0"
| step: "reachable tbl n inv0 invt d \<Longrightarrow> active_of invt \<noteq> [] \<Longrightarrow> \<not> n < d \<Longrightarrow>
         collect_candidates tbl (active_of invt) = Inr cands \<Longrightarrow> (cost, tmpl, nb) \<in> set cands \<Longrightarrow>
         update_inventory invt (active_of invt) tmpl nb = Inr new_inv \<Longrightarrow>
         reachable tbl n inv0 new_inv (d + 1)"

lemma length_active_card:
  "distinct (map fst invt) \<Longrightarrow> length (active_of invt) = card (set (map fst (active_of invt)))"
  using distinct_card [OF distinct_active_of, of invt] by simp

lemma candidate_expansion:
  assumes wf: "index_wf cfg tbl" and d: "distinct (map fst invt)"
    and cc: "collect_candidates tbl (active_of invt) = Inr cands"
    and mem: "(cost, tmpl, nb) \<in> set cands"
    and upd: "update_inventory invt (active_of invt) tmpl nb = Inr new_inv"
  shows "distinct (map fst new_inv)"
    and "length (active_of new_inv) < length (active_of invt)"
    and "(\<forall>(sid, q) \<in> set invt. 0 \<le> q) \<Longrightarrow> (\<forall>(sid, q) \<in> set new_inv. 0 \<le> q)"
    and "\<exists>sid \<in> set (stream_ids tmpl). map_of new_inv sid = Some 0"
    and "set (map fst (active_of new_inv)) \<subset> set (map fst (active_of invt))"
    and "0 < nb"
proof -
  from index_wf_template [OF wf cc mem] obtain key where
    k: "template_wf cfg key tmpl" "key \<subseteq> set (map fst (active_of invt))"
      "num_batches_of (active_of invt) tmpl = Inr nb"
    by blast
  note e = expansion_step [OF d k upd]
  from e(2) show dn: "distinct (map fst new_inv)" .
  from e(5) show "set (map fst (active_of new_inv)) \<subset> set (map fst (active_of invt))" .
  then have "card (set (map fst (active_of new_inv))) < card (set (map fst (active_of invt)))"
    by (intro psubset_card_mono) simp_all
  then show "length (active_of new_inv) < length (active_of invt)"
    by (simp only: length_active_card [OF d] length_active_card [OF dn])
  from e(4) k(1) show "\<exists>sid \<in> set (stream_ids tmpl). map_of new_inv sid = Some 0"
    by (simp add: template_wf_def)
  from e(1) show "0 < nb" .
  show "(\<forall>(sid, q) \<in> set invt. 0 \<le> q) \<Longrightarrow> (\<forall>(sid, q) \<in> set new_inv. 0 \<le> q)"
    by (rule e(6))
qed

lemma reachable_invariant:
  assumes wf: "index_wf cfg tbl" and d: "distinct (map fst inv0)"
    and r: "reachable tbl n inv0 invt depth"
  shows "distinct (map fst invt) \<and> length (active_of invt) + depth \<le> length (active_of inv0)
    \<and> ((\<forall>(sid, q) \<in> set inv0. 0 \<le> q) \<longrightarrow> (\<forall>(sid, q) \<in> set invt. 0 \<le> q))"
  using r
proof (induction rule: reachable.induct)
  case root
  from d show ?case by simp
next
  case (step invt d cands cost tmpl nb new_inv)
  then have di: "distinct (map fst invt)" by simp
  note c = candidate_expansion [OF wf di step.hyps(4,5,6)]
  from c(1,2,3) step.IH show ?case by auto
qed

definition short_enough :: "memo_key \<Rightarrow> xreal \<times> PhaseResult list \<Rightarrow> bool" where
  "short_enough k r \<longleftrightarrow> length (snd r) \<le> card (fst ` k)"

lemma search_node_short:
  assumes run: "search_node cfg n tbl invt depth (memo, stats) = Inr ((c, ps), memo', stats')"
    and wf: "index_wf cfg tbl" and d: "distinct (map fst invt)"
    and m: "memo_ok short_enough memo"
  shows "memo_ok short_enough memo' \<and> length ps \<le> length (active_of invt)"
proof -
  have inf: "\<And>k. short_enough k (PInf, [])" by (simp add: short_enough_def)
  have step: "short_enough (memo_key_of (active_of invt)) (Fin (cost + rc), phase # rps)"
    if "index_wf cfg tbl" "distinct (map fst invt)"
      "collect_candidates tbl (active_of invt) = Inr cands" "(cost, tmpl, nb) \<in> set cands"
      "update_inventory invt (active_of invt) tmpl nb = Inr new_inv"
      "distinct (map fst new_inv)"
      "node_result_ok short_enough new_inv (Fin rc, rps)"
    for cfg tbl invt cands cost tmpl nb new_inv phase rc rps
  proof -
    note c = candidate_expansion [OF that(1,2,3,4,5)]
    from that(7) have "length rps \<le> length (active_of new_inv)"
      by (auto simp: node_result_ok_def short_enough_def fst_memo_key_of
          length_active_card [OF that(6)])
    with c(2) have "length (phase # rps) \<le> length (active_of invt)" by simp
    then show ?thesis
      by (simp add: short_enough_def fst_memo_key_of length_active_card [OF that(2)])
  qed
  have pres: "distinct (map fst new_inv)"
    if "index_wf cfg tbl" "distinct (map fst invt)"
      "collect_candidates tbl (active_of invt) = Inr cands" "(cost, tmpl, nb) \<in> set cands"
      "update_inventory invt (active_of invt) tmpl nb = Inr new_inv"
    for cfg tbl invt cands cost tmpl nb new_inv
    using candidate_expansion(1) [OF that] .
  from search_invariant(1) [where R = short_enough and Ctx = index_wf
      and Iv = "\<lambda>i. distinct (map fst i)", of cfg n tbl invt depth "(memo, stats)",
      OF inf step pres]
    run wf d m
  have "memo_ok short_enough memo' \<and> node_result_ok short_enough invt (c, ps)" by simp
  then show ?thesis
    by (auto simp: node_result_ok_def short_enough_def fst_memo_key_of
        length_active_card [OF d])
qed

lemma length_active_of_le: "length (active_of invt) \<le> length invt"
  by (simp add: active_of_def)

lemma length_initial_inventory: "length (initial_inventory strs) \<le> length strs"
  using length_dict_of [of "map (\<lambda>s. (stream_id s, quantity_L s)) strs"]
  by (simp add: initial_inventory_def)

lemma search_short:
  assumes "search strs cfg = Inr (c, ps, stats)"
  shows "length ps \<le> length strs"
proof -
  from assms obtain memo' where
    sm: "search_with_memo strs cfg = Inr ((c, ps), memo', stats)"
    by (auto simp: search_def split: sum.splits prod.splits)
  from sm obtain rc tbl a b c' where
    wf: "index_wf cfg tbl"
    and run: "search_node cfg (length strs) tbl (initial_inventory strs) 0
               (Map.empty, initial_stats a b c') = Inr ((c, ps), memo', stats)"
    by (rule search_with_memo_run)
  have m: "memo_ok short_enough Map.empty" by (simp add: memo_ok_def)
  have d: "distinct (map fst (initial_inventory strs))"
    by (simp add: initial_inventory_def distinct_dict_of)
  from search_node_short [OF run wf d m]
  have "length ps \<le> length (active_of (initial_inventory strs))" by simp
  also have "\<dots> \<le> length strs"
    using length_active_of_le [of "initial_inventory strs"] length_initial_inventory [of strs]
    by simp
  finally show ?thesis .
qed

lemma set_fold_dict_set_subset:
  "set (fold (\<lambda>(k, v) d. dict_set d k v) ps d) \<subseteq> set ps \<union> set d"
proof (induction ps arbitrary: d)
  case Nil
  then show ?case by simp
next
  case (Cons p ps)
  obtain k v where p: "p = (k, v)" by (cases p)
  from Cons [of "dict_set d k v"] set_dict_set_subset [of d k v] show ?case
    by (auto simp: p)
qed

lemma initial_inventory_nonneg:
  assumes "list_all (\<lambda>s. 0 < quantity_L s) strs"
  shows "\<forall>(sid, q) \<in> set (initial_inventory strs). 0 \<le> q"
proof (clarify)
  fix sid q assume "(sid, q) \<in> set (initial_inventory strs)"
  with set_fold_dict_set_subset [of "map (\<lambda>s. (stream_id s, quantity_L s)) strs" "[]"]
  have "(sid, q) \<in> set (map (\<lambda>s. (stream_id s, quantity_L s)) strs)"
    by (auto simp: initial_inventory_def dict_of_def)
  with assms show "0 \<le> q" by (auto simp: list_all_iff)
qed

text \<open>
  Claim C10, amended: in exact arithmetic (quantities, ratios and batch counts as real
  numbers; the claim in IEEE doubles is refuted at the end of this theory), for the index
  \<open>tbl\<close> that \<open>search\<close> pre-computes and strictly positive quantities. At every state the
  recursion can reach: the active streams and the depth
  add up to at most \<open>N\<close>, every quantity is non-negative, and a non-terminal state never
  has depth greater than \<open>N\<close>; for each of its candidates, the batch count is the minimum
  over the participating streams of quantity divided by ratio component, the reduced
  inventory is non-negative, some participating stream is left with exactly zero, and the
  set of active streams shrinks strictly. And every schedule \<open>search\<close> returns has at most
  \<open>N\<close> phases.
\<close>

theorem phases_deplete_streams:
  assumes "ratio_cache_of (length strs) (ratio_sum_max cfg) = Inr rc"
    and "precompute_templates strs cfg rc = Inr (tbl, a, b, c)"
    and "list_all (\<lambda>s. 0 < quantity_L s) strs"
  shows "(reachable tbl (length strs) (initial_inventory strs) invt d \<longrightarrow>
            length (active_of invt) + d \<le> length strs
          \<and> list_all (\<lambda>(sid, q). 0 \<le> q) invt
          \<and> (active_of invt \<noteq> [] \<longrightarrow> \<not> length strs < d)
          \<and> (\<forall>cands cost tmpl nb new_inv.
                collect_candidates tbl (active_of invt) = Inr cands
                \<and> (cost, tmpl, nb) \<in> set cands
                \<and> update_inventory invt (active_of invt) tmpl nb = Inr new_inv
              \<longrightarrow> (\<forall>(sid, r) \<in> set (zip (stream_ids tmpl) (ratios tmpl)).
                      \<exists>q. map_of (active_of invt) sid = Some q \<and> nb \<le> q / of_int r)
                \<and> (\<exists>(sid, r) \<in> set (zip (stream_ids tmpl) (ratios tmpl)).
                      \<exists>q. map_of (active_of invt) sid = Some q \<and> nb = q / of_int r)
                \<and> list_all (\<lambda>(sid, q). 0 \<le> q) new_inv
                \<and> (\<exists>sid \<in> set (stream_ids tmpl). map_of new_inv sid = Some 0)
                \<and> set (map fst (active_of new_inv)) \<subset> set (map fst (active_of invt))))
       \<and> (search strs cfg = Inr (cst, ps, stats) \<longrightarrow> length ps \<le> length strs)"
proof (intro conjI impI allI)
  assume "search strs cfg = Inr (cst, ps, stats)"
  then show "length ps \<le> length strs" by (rule search_short)
next
  assume r: "reachable tbl (length strs) (initial_inventory strs) invt d"
  have wf: "index_wf cfg tbl" by (rule ratio_cache_of_index_wf [OF assms(1,2)])
  have d0: "distinct (map fst (initial_inventory strs))"
    by (simp add: initial_inventory_def distinct_dict_of)
  from reachable_invariant [OF wf d0 r] initial_inventory_nonneg [OF assms(3)]
  have di: "distinct (map fst invt)"
    and bound: "length (active_of invt) + d \<le> length (active_of (initial_inventory strs))"
    and nn: "\<forall>(sid, q) \<in> set invt. 0 \<le> q"
    by simp_all
  from bound length_active_of_le [of "initial_inventory strs"] length_initial_inventory [of strs]
  show b: "length (active_of invt) + d \<le> length strs" by simp
  from nn show "list_all (\<lambda>(sid, q). 0 \<le> q) invt" by (simp add: list_all_iff)
  { assume "active_of invt \<noteq> []"
    then have "0 < length (active_of invt)" by simp
    with b show "\<not> length strs < d" by simp }
  fix cands cost tmpl nb new_inv
  assume h: "collect_candidates tbl (active_of invt) = Inr cands
                \<and> (cost, tmpl, nb) \<in> set cands
                \<and> update_inventory invt (active_of invt) tmpl nb = Inr new_inv"
  then have cc: "collect_candidates tbl (active_of invt) = Inr cands"
    and mem: "(cost, tmpl, nb) \<in> set cands"
    and upd: "update_inventory invt (active_of invt) tmpl nb = Inr new_inv" by simp_all
  note c = candidate_expansion [OF wf di cc mem upd]
  from index_wf_template [OF wf cc mem] obtain key where
    "num_batches_of (active_of invt) tmpl = Inr nb" by blast
  note mn = num_batches_of_min [OF this]
  from mn(1) show "\<forall>(sid, r) \<in> set (zip (stream_ids tmpl) (ratios tmpl)).
                      \<exists>q. map_of (active_of invt) sid = Some q \<and> nb \<le> q / of_int r"
    by fast
  from mn(2) show "\<exists>(sid, r) \<in> set (zip (stream_ids tmpl) (ratios tmpl)).
                      \<exists>q. map_of (active_of invt) sid = Some q \<and> nb = q / of_int r"
    by fast
  from c(3) nn show "list_all (\<lambda>(sid, q). 0 \<le> q) new_inv" by (simp add: list_all_iff)
  from c(4) show "\<exists>sid \<in> set (stream_ids tmpl). map_of new_inv sid = Some 0" .
  from c(5) show "set (map fst (active_of new_inv)) \<subset> set (map fst (active_of invt))" .
qed

definition index_A :: templates_index where
  "index_A = [({''A''},
            [\<lparr>stream_ids = [''A''], ratios = [1],
              blend = \<lparr>bp_btu_per_lb = 4400, bp_pH = 7, bp_f_ppm = 0, bp_solid_pct = 0,
                        bp_salt_ppm = 0\<rparr>,
              t_r_water = 0, t_r_diesel = 0, t_r_naoh = 0, t_r_ext = 0,
              t_W = 11, cost_per_batch = 37 / 165, sum_ratios = 1\<rparr>])]"

lemma precompute_index_A:
  "precompute_templates [stream_A] default_config [(1, [[1]])] = Inr (index_A, 1, 0, 1)"
  unfolding index_A_def by (rule precompute_stream_A)

lemma initial_inventory_A: "initial_inventory [stream_A] = [(''A'', 104 / 10)]"
  by (simp add: initial_inventory_def dict_of_def stream_A_def)

lemma candidates_index_A:
  "collect_candidates index_A (active_of [(''A'', 104 / 10)])
     = Inr [(1924 / 825, hd (snd (hd index_A)), 104 / 10)]"
  by (simp add: index_A_def eval_defs)

lemma update_index_A:
  "update_inventory [(''A'', 104 / 10)] (active_of [(''A'', 104 / 10)]) (hd (snd (hd index_A))) (104 / 10)
     = Inr [(''A'', 0)]"
  by (simp add: index_A_def eval_defs)

theorem phases_deplete_streams_witness:
  "ratio_cache_of (length [stream_A]) (ratio_sum_max default_config) = Inr [(1, [[1]])]
   \<and> precompute_templates [stream_A] default_config [(1, [[1]])] = Inr (index_A, 1, 0, 1)
   \<and> list_all (\<lambda>s. 0 < quantity_L s) [stream_A]
   \<and> reachable index_A (length [stream_A]) (initial_inventory [stream_A]) [(''A'', 104 / 10)] 0
   \<and> active_of [(''A'', 104 / 10)] \<noteq> []
   \<and> length (active_of [(''A'', 104 / 10)]) + 0 \<le> length [stream_A]
   \<and> \<not> length [stream_A] < 0
   \<and> collect_candidates index_A (active_of [(''A'', 104 / 10)])
       = Inr [(1924 / 825, hd (snd (hd index_A)), 104 / 10)]
   \<and> update_inventory [(''A'', 104 / 10)] (active_of [(''A'', 104 / 10)])
         (hd (snd (hd index_A))) (104 / 10) = Inr [(''A'', 0)]
   \<and> map_of [(''A'', 0 :: real)] ''A'' = Some 0
   \<and> set (map fst (active_of [(''A'', 0)])) \<subset> set (map fst (active_of [(''A'', 104 / 10)]))
   \<and> (\<exists>cst ps stats. search [stream_A] default_config = Inr (cst, ps, stats)
         \<and> length ps \<le> length [stream_A])"
proof -
  have rc: "ratio_cache_of (length [stream_A]) (ratio_sum_max default_config) = Inr [(1, [[1]])]"
    using ratio_cache_of_1 by simp
  have pos: "list_all (\<lambda>s. 0 < quantity_L s) [stream_A]" by (simp add: stream_A_def)
  have re: "reachable index_A (length [stream_A]) (initial_inventory [stream_A]) [(''A'', 104 / 10)] 0"
    using reachable.root [of index_A "length [stream_A]" "initial_inventory [stream_A]"]
    by (simp add: initial_inventory_A)
  have act: "active_of [(''A'', 104 / 10)] \<noteq> []"
    by (simp add: active_of_def ACTIVE_THRESHOLD_L_def)
  have mem: "(1924 / 825, hd (snd (hd index_A)), 104 / 10)
               \<in> set [(1924 / 825 :: real, hd (snd (hd index_A)), 104 / 10 :: real)]" by simp
  note t = phases_deplete_streams [OF rc precompute_index_A pos,
      where invt = "[(''A'', 104 / 10)]" and d = 0 and cst = "Fin (1924 / 825)"
        and ps = "fst (snd (projr (search [stream_A] default_config)))"
        and stats = "snd (snd (projr (search [stream_A] default_config)))"]
  from t re act candidates_index_A update_index_A mem
  have "set (map fst (active_of [(''A'', 0)])) \<subset> set (map fst (active_of [(''A'', 104 / 10)]))"
    by blast
  moreover from t search_stream_A
  have "\<exists>cst ps stats. search [stream_A] default_config = Inr (cst, ps, stats)
         \<and> length ps \<le> length [stream_A]"
    by simp
  moreover from t re have "length (active_of [(''A'', 104 / 10)]) + 0 \<le> length [stream_A]"
    by blast
  ultimately show ?thesis
    using rc precompute_index_A pos re act candidates_index_A update_index_A by simp
qed

subsection \<open>The search without its memo table\<close>

text \<open>
  \<open>pure_node\<close> and \<open>pure_loop\<close> are \<^verbatim>\<open>_search\<close> and its candidate loop with the memo
  table and the statistics erased: the same candidates in the same order, the same pruning
  test, the same update rule. They are pure functions of their arguments.
\<close>

function
  pure_node ::
    "SystemConfig \<Rightarrow> nat \<Rightarrow> templates_index \<Rightarrow> inventory \<Rightarrow> nat
      \<Rightarrow> py_error + xreal \<times> PhaseResult list"
and
  pure_loop ::
    "SystemConfig \<Rightarrow> nat \<Rightarrow> templates_index \<Rightarrow> inventory \<Rightarrow> inventory \<Rightarrow> nat
      \<Rightarrow> candidate list \<Rightarrow> xreal \<times> PhaseResult list option
      \<Rightarrow> py_error + xreal \<times> PhaseResult list option"
where
  "pure_node cfg n all_templates invt depth =
     (let active = active_of invt
      in if active = [] then Inr (Fin 0, [])
         else if n < depth then Inr (PInf, [])
         else
           (case collect_candidates all_templates active of
              Inl e \<Rightarrow> Inl e
            | Inr candidates \<Rightarrow>
                (case pure_loop cfg n all_templates invt active depth
                        (sort_key fst candidates) (PInf, None) of
                   Inl e \<Rightarrow> Inl e
                 | Inr (best_sub_cost, best_phases) \<Rightarrow>
                     Inr (case best_phases of
                            Some ps \<Rightarrow> (best_sub_cost, ps)
                          | None \<Rightarrow> (PInf, [])))))"
| "pure_loop cfg n all_templates invt active depth [] best = Inr best"
| "pure_loop cfg n all_templates invt active depth ((cost, tmpl, num_batches) # rest)
       (best_sub_cost, best_phases) =
     (if real_ge cost best_sub_cost then Inr (best_sub_cost, best_phases)
      else
        case update_inventory invt active tmpl num_batches of
          Inl e \<Rightarrow> Inl e
        | Inr new_inv \<Rightarrow>
            (case pure_node cfg n all_templates new_inv (depth + 1) of
               Inl e \<Rightarrow> Inl e
             | Inr (remaining_cost, remaining_phases) \<Rightarrow>
                 let total_from_here = xadd cost remaining_cost
                 in if xless total_from_here best_sub_cost then
                      (case make_phase cfg tmpl num_batches of
                         Inl e \<Rightarrow> Inl e
                       | Inr phase \<Rightarrow>
                           pure_loop cfg n all_templates invt active depth rest
                             (total_from_here, Some (phase # remaining_phases)))
                    else
                      pure_loop cfg n all_templates invt active depth rest
                        (best_sub_cost, best_phases)))"
  by pat_completeness auto
termination
  by (relation "measures
        [\<lambda>x. case x of
                Inl (cfg, n, tbl, invt, depth) \<Rightarrow> (if depth \<le> n then 2 * (n - depth) + 3 else 0)
              | Inr (cfg, n, tbl, invt, active, depth, cs, best) \<Rightarrow>
                  (if depth \<le> n then 2 * (n - depth) + 2 else 1),
         \<lambda>x. case x of
                Inl (cfg, n, tbl, invt, depth) \<Rightarrow> 0
              | Inr (cfg, n, tbl, invt, active, depth, cs, best) \<Rightarrow> length cs]")
     auto

declare pure_node.simps [simp del] pure_loop.simps(2) [simp del]

subsection \<open>The exhaustive search of the specification\<close>

text \<open>Costs with \<open>+infinity\<close> are linearly ordered, \<open>PInf\<close> on top.\<close>

instantiation xreal :: linorder
begin

definition less_eq_xreal :: "xreal \<Rightarrow> xreal \<Rightarrow> bool" where
  "a \<le> b \<longleftrightarrow> (case b of PInf \<Rightarrow> True | Fin y \<Rightarrow> (case a of PInf \<Rightarrow> False | Fin x \<Rightarrow> x \<le> y))"

definition less_xreal :: "xreal \<Rightarrow> xreal \<Rightarrow> bool" where
  "a < b \<longleftrightarrow> (case a of PInf \<Rightarrow> False | Fin x \<Rightarrow> (case b of PInf \<Rightarrow> True | Fin y \<Rightarrow> x < y))"

instance
  by standard (auto simp: less_eq_xreal_def less_xreal_def split: xreal.splits)

end

lemma xreal_order_simps [simp]:
  "Fin x \<le> Fin y \<longleftrightarrow> x \<le> y" "a \<le> PInf" "PInf \<le> a \<longleftrightarrow> a = PInf"
  "Fin x < Fin y \<longleftrightarrow> x < y" "Fin x < PInf" "\<not> PInf < a"
  by (auto simp: less_eq_xreal_def less_xreal_def split: xreal.splits)

lemma xless_iff: "xless a b \<longleftrightarrow> a < b"
  by (cases a; cases b) simp_all

lemma real_ge_iff: "real_ge c b \<longleftrightarrow> b \<le> Fin c"
  by (cases b) simp_all

fun min_cost_list :: "xreal list \<Rightarrow> xreal" where
  "min_cost_list [] = PInf"
| "min_cost_list (x # xs) = min x (min_cost_list xs)"

text \<open>
  The search as the specification describes it before any pruning or caching: at a
  non-terminal state within the depth bound, the minimum over every candidate of the
  retained templates of its cost plus the cost of the state it leads to.
\<close>

function exhaustive_cost :: "nat \<Rightarrow> templates_index \<Rightarrow> inventory \<Rightarrow> nat \<Rightarrow> xreal" where
  "exhaustive_cost n tbl invt depth =
     (if active_of invt = [] then Fin 0
      else if n < depth then PInf
      else case collect_candidates tbl (active_of invt) of
             Inl e \<Rightarrow> PInf
           | Inr candidates \<Rightarrow>
               min_cost_list
                 (map (\<lambda>cand. case update_inventory invt (active_of invt) (fst (snd cand))
                                      (snd (snd cand)) of
                                Inl e \<Rightarrow> PInf
                              | Inr new_inv \<Rightarrow>
                                  xadd (fst cand) (exhaustive_cost n tbl new_inv (depth + 1)))
                      candidates))"
  by pat_completeness auto
termination
  by (relation "measure (\<lambda>(n, tbl, invt, depth). n + 1 - depth)") auto

declare exhaustive_cost.simps [simp del]

lemma min_cost_list_Min: "min_cost_list xs = Min (insert PInf (set xs))"
proof (induction xs)
  case Nil
  then show ?case by simp
next
  case (Cons x xs)
  have "Min (insert PInf (set (x # xs))) = Min (insert x (insert PInf (set xs)))"
    by (simp add: insert_commute)
  also have "\<dots> = min x (Min (insert PInf (set xs)))"
    by (rule Min_insert) simp_all
  finally show ?case using Cons by simp
qed

lemma min_cost_list_set: "set xs = set ys \<Longrightarrow> min_cost_list xs = min_cost_list ys"
  by (simp add: min_cost_list_Min)

lemma min_cost_list_ge: "(\<And>x. x \<in> set xs \<Longrightarrow> b \<le> x) \<Longrightarrow> b \<le> min_cost_list xs"
  by (induction xs) simp_all

lemma pure_node_cases:
  assumes "pure_node cfg n tbl invt depth = Inr r"
  obtains
    (terminal) "active_of invt = []" "r = (Fin 0, [])"
  | (bound) "active_of invt \<noteq> []" "n < depth" "r = (PInf, [])"
  | (fresh) cands b bp where "active_of invt \<noteq> []" "depth \<le> n"
      "collect_candidates tbl (active_of invt) = Inr cands"
      "pure_loop cfg n tbl invt (active_of invt) depth (sort_key fst cands) (PInf, None) = Inr (b, bp)"
      "r = (case bp of Some ps \<Rightarrow> (b, ps) | None \<Rightarrow> (PInf, []))"
  using assms
  by (auto simp: pure_node.simps Let_def split: if_splits option.splits sum.splits prod.splits)

lemma pure_loop_cons_cases:
  assumes "pure_loop cfg n tbl invt active depth ((cost, tmpl, nb) # rest) (b, bp) = Inr res"
  obtains
    (pruned) "real_ge cost b" "res = (b, bp)"
  | (better) new_inv rc rps phase where "\<not> real_ge cost b"
      "update_inventory invt active tmpl nb = Inr new_inv"
      "pure_node cfg n tbl new_inv (depth + 1) = Inr (rc, rps)"
      "xless (xadd cost rc) b" "make_phase cfg tmpl nb = Inr phase"
      "pure_loop cfg n tbl invt active depth rest (xadd cost rc, Some (phase # rps)) = Inr res"
  | (worse) new_inv rc rps where "\<not> real_ge cost b"
      "update_inventory invt active tmpl nb = Inr new_inv"
      "pure_node cfg n tbl new_inv (depth + 1) = Inr (rc, rps)"
      "\<not> xless (xadd cost rc) b"
      "pure_loop cfg n tbl invt active depth rest (b, bp) = Inr res"
  using assms
  by (auto simp: pure_loop.simps Let_def split: if_splits option.splits sum.splits prod.splits)

subsection \<open>Pruning loses nothing when costs are non-negative\<close>

definition index_nonneg :: "templates_index \<Rightarrow> bool" where
  "index_nonneg tbl \<longleftrightarrow> list_all (\<lambda>(key, ts). list_all (\<lambda>t. 0 \<le> cost_per_batch t) ts) tbl"

definition cand_total :: "nat \<Rightarrow> templates_index \<Rightarrow> inventory \<Rightarrow> nat \<Rightarrow> candidate \<Rightarrow> xreal" where
  "cand_total n tbl invt depth cand =
     (case update_inventory invt (active_of invt) (fst (snd cand)) (snd (snd cand)) of
        Inl e \<Rightarrow> PInf
      | Inr new_inv \<Rightarrow> xadd (fst cand) (exhaustive_cost n tbl new_inv (depth + 1)))"

lemma exhaustive_cost_unfold:
  "exhaustive_cost n tbl invt depth =
     (if active_of invt = [] then Fin 0
      else if n < depth then PInf
      else case collect_candidates tbl (active_of invt) of
             Inl e \<Rightarrow> PInf
           | Inr candidates \<Rightarrow> min_cost_list (map (cand_total n tbl invt depth) candidates))"
proof -
  have "cand_total n tbl invt depth =
      (\<lambda>cand. case update_inventory invt (active_of invt) (fst (snd cand)) (snd (snd cand)) of
                Inl e \<Rightarrow> PInf
              | Inr new_inv \<Rightarrow> xadd (fst cand) (exhaustive_cost n tbl new_inv (depth + 1)))"
    by (rule ext) (simp add: cand_total_def)
  then show ?thesis by (subst exhaustive_cost.simps) (simp split: sum.splits)
qed

lemma xadd_ge: "0 \<le> c \<Longrightarrow> Fin 0 \<le> e \<Longrightarrow> Fin c \<le> xadd c e"
  by (cases e) simp_all

lemma cand_cost_nonneg:
  assumes "index_wf cfg tbl" "index_nonneg tbl" "distinct (map fst invt)"
    "collect_candidates tbl (active_of invt) = Inr cands" "(cost, tmpl, nb) \<in> set cands"
    "update_inventory invt (active_of invt) tmpl nb = Inr new_inv"
  shows "0 \<le> cost"
proof -
  from collect_candidates_mem [OF assms(4,5)] obtain key ts where
    k: "(key, ts) \<in> set tbl" "tmpl \<in> set ts" "cost = nb * cost_per_batch tmpl" by blast
  from assms(2) k(1,2) have "0 \<le> cost_per_batch tmpl"
    by (auto simp: index_nonneg_def list_all_iff)
  moreover from candidate_expansion(6) [OF assms(1,3,4,5,6)] have "0 < nb" .
  ultimately show ?thesis using k(3) by simp
qed

lemma exhaustive_nonneg:
  "index_wf cfg tbl \<Longrightarrow> index_nonneg tbl \<Longrightarrow> distinct (map fst invt)
   \<Longrightarrow> Fin 0 \<le> exhaustive_cost n tbl invt depth"
proof (induction n tbl invt depth rule: exhaustive_cost.induct)
  case (1 n tbl invt depth)
  show ?case
  proof (cases "active_of invt = [] \<or> n < depth")
    case True
    then show ?thesis by (auto simp: exhaustive_cost_unfold)
  next
    case False
    show ?thesis
    proof (cases "collect_candidates tbl (active_of invt)")
      case (Inl e)
      with False show ?thesis by (simp add: exhaustive_cost_unfold)
    next
      case (Inr cands)
      have "Fin 0 \<le> cand_total n tbl invt depth cand" if "cand \<in> set cands" for cand
      proof (cases "update_inventory invt (active_of invt) (fst (snd cand)) (snd (snd cand))")
        case (Inl e)
        then show ?thesis by (simp add: cand_total_def)
      next
        case u: (Inr new_inv)
        obtain cost tmpl nb where c: "cand = (cost, tmpl, nb)" by (cases cand)
        from u c have upd: "update_inventory invt (active_of invt) tmpl nb = Inr new_inv" by simp
        from that c have mem: "(cost, tmpl, nb) \<in> set cands" by simp
        from candidate_expansion(1) [OF "1.prems"(1,3) Inr mem upd]
        have dn: "distinct (map fst new_inv)" .
        from "1.IH" [OF _ _ Inr that u "1.prems"(1,2) dn] False
        have "Fin 0 \<le> exhaustive_cost n tbl new_inv (depth + 1)" by simp
        moreover from cand_cost_nonneg [OF "1.prems" Inr mem upd] have "0 \<le> cost" .
        ultimately have "Fin cost \<le> xadd cost (exhaustive_cost n tbl new_inv (depth + 1))"
          by (rule xadd_ge [rotated])
        with \<open>0 \<le> cost\<close> have "Fin 0 \<le> xadd cost (exhaustive_cost n tbl new_inv (depth + 1))"
          by (cases "xadd cost (exhaustive_cost n tbl new_inv (depth + 1))") simp_all
        with u c show ?thesis by (simp add: cand_total_def)
      qed
      then have "Fin 0 \<le> min_cost_list (map (cand_total n tbl invt depth) cands)"
        by (intro min_cost_list_ge) auto
      with False Inr show ?thesis by (simp add: exhaustive_cost_unfold)
    qed
  qed
qed

lemma cand_total_ge:
  assumes "index_wf cfg tbl" "index_nonneg tbl" "distinct (map fst invt)"
    "collect_candidates tbl (active_of invt) = Inr cands" "cand \<in> set cands"
  shows "Fin (fst cand) \<le> cand_total n tbl invt depth cand"
proof (cases "update_inventory invt (active_of invt) (fst (snd cand)) (snd (snd cand))")
  case (Inl e)
  then show ?thesis by (simp add: cand_total_def)
next
  case u: (Inr new_inv)
  obtain cost tmpl nb where c: "cand = (cost, tmpl, nb)" by (cases cand)
  from u c have upd: "update_inventory invt (active_of invt) tmpl nb = Inr new_inv" by simp
  from assms(5) c have mem: "(cost, tmpl, nb) \<in> set cands" by simp
  from candidate_expansion(1) [OF assms(1,3,4) mem upd]
  have dn: "distinct (map fst new_inv)" .
  from exhaustive_nonneg [OF assms(1,2) dn]
  have "Fin 0 \<le> exhaustive_cost n tbl new_inv (depth + 1)" .
  with cand_cost_nonneg [OF assms(1,2,3,4) mem upd]
  have "Fin cost \<le> xadd cost (exhaustive_cost n tbl new_inv (depth + 1))"
    by (rule xadd_ge)
  with u c show ?thesis by (simp add: cand_total_def)
qed

lemma pure_is_exhaustive:
  shows "\<forall>c ps. pure_node cfg n tbl invt depth = Inr (c, ps) \<longrightarrow>
           index_wf cfg tbl \<longrightarrow> index_nonneg tbl \<longrightarrow> distinct (map fst invt) \<longrightarrow>
           c = exhaustive_cost n tbl invt depth"
    and "\<forall>b' bp' cands. pure_loop cfg n tbl invt active depth cs best = Inr (b', bp') \<longrightarrow>
           index_wf cfg tbl \<longrightarrow> index_nonneg tbl \<longrightarrow> distinct (map fst invt) \<longrightarrow>
           active = active_of invt \<longrightarrow> collect_candidates tbl active = Inr cands \<longrightarrow>
           set cs \<subseteq> set cands \<longrightarrow> sorted (map fst cs) \<longrightarrow>
           (snd best = None \<longrightarrow> fst best = PInf) \<longrightarrow>
           b' = min (fst best) (min_cost_list (map (cand_total n tbl invt depth) cs))
           \<and> (bp' = None \<longrightarrow> b' = PInf)"
proof (induction cfg n tbl invt depth and cfg n tbl invt active depth cs best
    rule: pure_node_pure_loop.induct)
  case (1 cfg n tbl invt depth)
  show ?case
  proof (intro allI impI)
    fix c ps
    assume run: "pure_node cfg n tbl invt depth = Inr (c, ps)"
      and wf: "index_wf cfg tbl" and nn: "index_nonneg tbl" and d: "distinct (map fst invt)"
    from run show "c = exhaustive_cost n tbl invt depth"
    proof (cases rule: pure_node_cases)
      case terminal
      then show ?thesis by (simp add: exhaustive_cost_unfold)
    next
      case bound
      then show ?thesis by (simp add: exhaustive_cost_unfold)
    next
      case (fresh cands b bp)
      from "1.IH" [OF refl fresh(1) _ fresh(3)] fresh(2,3,4) wf nn d
      have "b = min PInf (min_cost_list (map (cand_total n tbl invt depth) (sort_key fst cands)))
            \<and> (bp = None \<longrightarrow> b = PInf)"
        by auto
      moreover have "min PInf x = x" for x :: xreal by (auto simp: min_def)
      ultimately have b: "b = min_cost_list (map (cand_total n tbl invt depth) (sort_key fst cands))"
        and none: "bp = None \<longrightarrow> b = PInf"
        by metis+
      have "min_cost_list (map (cand_total n tbl invt depth) (sort_key fst cands))
            = min_cost_list (map (cand_total n tbl invt depth) cands)"
        by (rule min_cost_list_set) simp
      with b have "b = exhaustive_cost n tbl invt depth"
        using fresh(1,2,3) by (simp add: exhaustive_cost_unfold)
      moreover from fresh(5) none have "c = b" by (cases bp) auto
      ultimately show ?thesis by simp
    qed
  qed
next
  case (2 cfg n tbl invt active depth best)
  show ?case by (cases best) (auto simp: min_def)
next
  case (3 cfg n tbl invt active depth cost tmpl nb rest b bp)
  show ?case
  proof (intro allI impI)
    fix b' bp' cands
    assume run: "pure_loop cfg n tbl invt active depth ((cost, tmpl, nb) # rest) (b, bp) = Inr (b', bp')"
      and wf: "index_wf cfg tbl" and nn: "index_nonneg tbl" and d: "distinct (map fst invt)"
      and act: "active = active_of invt"
      and cc: "collect_candidates tbl active = Inr cands"
      and sub: "set ((cost, tmpl, nb) # rest) \<subseteq> set cands"
      and srt: "sorted (map fst ((cost, tmpl, nb) # rest))"
      and bnone: "snd (b, bp) = None \<longrightarrow> fst (b, bp) = PInf"
    let ?T = "cand_total n tbl invt depth"
    from sub have mem: "(cost, tmpl, nb) \<in> set cands" and sub': "set rest \<subseteq> set cands" by auto
    from srt have srt': "sorted (map fst rest)" and le: "\<forall>c' \<in> set rest. cost \<le> fst c'"
      by auto
    from cc act have cc': "collect_candidates tbl (active_of invt) = Inr cands" by simp
    from run show "b' = min (fst (b, bp)) (min_cost_list (map ?T ((cost, tmpl, nb) # rest)))
                   \<and> (bp' = None \<longrightarrow> b' = PInf)"
    proof (cases rule: pure_loop_cons_cases)
      case pruned
      then have bc: "b \<le> Fin cost" by (simp add: real_ge_iff)
      have "b \<le> ?T c'" if "c' \<in> set ((cost, tmpl, nb) # rest)" for c'
      proof -
        from that sub have "c' \<in> set cands" by auto
        from cand_total_ge [OF wf nn d cc' this] have "Fin (fst c') \<le> ?T c'" .
        moreover from that le have "cost \<le> fst c'" by auto
        ultimately show ?thesis using bc
          by (meson order_trans xreal_order_simps(1))
      qed
      then have "b \<le> min_cost_list (map ?T ((cost, tmpl, nb) # rest))"
        by (intro min_cost_list_ge) auto
      with pruned bnone bc show ?thesis by (auto simp: min_def)
    next
      case (better new_inv rc rps phase)
      from better(2) act have upd: "update_inventory invt (active_of invt) tmpl nb = Inr new_inv"
        by simp
      from candidate_expansion(1) [OF wf d cc' mem upd] have dn: "distinct (map fst new_inv)" .
      from "3.IH"(1) [OF better(1) better(2)] better(3) wf nn dn
      have rc: "rc = exhaustive_cost n tbl new_inv (depth + 1)" by simp
      with upd have tot: "?T (cost, tmpl, nb) = xadd cost rc" by (simp add: cand_total_def)
      from better(4) have lt: "xadd cost rc < b" by (simp add: xless_iff)
      from "3.IH"(2) [OF better(1) better(2) better(3) refl refl better(4) better(5)]
        better(6) wf nn d act cc sub' srt'
      have "b' = min (xadd cost rc) (min_cost_list (map ?T rest)) \<and> (bp' = None \<longrightarrow> b' = PInf)"
        by auto
      with tot lt show ?thesis by (auto simp: min_def)
    next
      case (worse new_inv rc rps)
      from worse(2) act have upd: "update_inventory invt (active_of invt) tmpl nb = Inr new_inv"
        by simp
      from candidate_expansion(1) [OF wf d cc' mem upd] have dn: "distinct (map fst new_inv)" .
      from "3.IH"(1) [OF worse(1) worse(2)] worse(3) wf nn dn
      have rc: "rc = exhaustive_cost n tbl new_inv (depth + 1)" by simp
      with upd have tot: "?T (cost, tmpl, nb) = xadd cost rc" by (simp add: cand_total_def)
      from worse(4) have ge: "b \<le> xadd cost rc" by (simp add: xless_iff)
      from "3.IH"(3) [OF worse(1) worse(2) worse(3) refl refl worse(4)]
        worse(5) wf nn d act cc sub' srt' bnone
      have "b' = min b (min_cost_list (map ?T rest)) \<and> (bp' = None \<longrightarrow> b' = PInf)"
        by auto
      with tot ge show ?thesis by (auto simp: min_def)
    qed
  qed
qed

subsection \<open>Non-negative unit costs give non-negative template costs\<close>

definition cfg_nonneg :: "SystemConfig \<Rightarrow> bool" where
  "cfg_nonneg cfg \<longleftrightarrow>
     0 \<le> cost_diesel_per_L cfg \<and> 0 \<le> cost_naoh_per_L cfg \<and> 0 \<le> cost_water_per_L cfg
     \<and> 0 \<le> cost_electricity_per_kWh cfg \<and> 0 \<le> cost_labor_per_hr cfg
     \<and> 0 \<le> P_system cfg \<and> 0 \<le> W_min cfg \<and> 0 \<le> K_ACID_TO_NAOH_VOL cfg"

lemma eval_template_rates:
  assumes "eval_template cfg fixed comb ss rs = Inr (Some t)"
  shows "0 \<le> t_r_water t" "0 \<le> t_r_diesel t"
    "0 \<le> K_ACID_TO_NAOH_VOL cfg \<Longrightarrow> 0 \<le> t_r_naoh t"
  using assms
  by (auto simp: eval_template_def Let_def ebind_Inr_iff gatekeeper_def calc_r_water_def
      calc_r_diesel_def calc_r_naoh_def split: if_splits prod.splits)

lemma eval_template_cost_nonneg:
  assumes ev: "eval_template cfg (fixed_cost_per_min_of cfg) comb ss rs = Inr (Some t)"
    and nn: "cfg_nonneg cfg" and rs: "0 \<le> sum_list rs"
  shows "0 \<le> cost_per_batch t"
proof -
  note f = eval_template_facts [OF ev]
  note r = eval_template_rates [OF ev]
  from nn have c: "0 \<le> cost_diesel_per_L cfg" "0 \<le> cost_naoh_per_L cfg"
      "0 \<le> cost_water_per_L cfg" "0 \<le> W_min cfg" "0 \<le> K_ACID_TO_NAOH_VOL cfg"
    and fx: "0 \<le> fixed_cost_per_min_of cfg"
    by (simp_all add: cfg_nonneg_def fixed_cost_per_min_of_def)
  from f(4,5) c(4) have w: "0 < t_W t" by simp
  have "0 \<le> t_r_diesel t * cost_diesel_per_L cfg + t_r_naoh t * cost_naoh_per_L cfg
           + t_r_water t * cost_water_per_L cfg"
    using r(1,2) r(3) [OF c(5)] c(1,2,3) by simp
  with w fx have "0 \<le> t_W t * (t_r_diesel t * cost_diesel_per_L cfg
      + t_r_naoh t * cost_naoh_per_L cfg + t_r_water t * cost_water_per_L cfg)
      + fixed_cost_per_min_of cfg"
    by simp
  moreover from rs w have "0 \<le> real_of_int (sum_list rs) / t_W t" by simp
  ultimately show ?thesis unfolding f(6) by (rule mult_nonneg_nonneg [rotated])
qed

lemma ratio_cache_of_index_nonneg:
  assumes rc: "ratio_cache_of (length strs) max_sum = Inr rc"
    and pre: "precompute_templates strs cfg rc = Inr (tbl, a, b, c)"
    and nn: "cfg_nonneg cfg"
  shows "index_nonneg tbl"
proof -
  define ids where "ids = sort (map fst (streams_map_of strs))"
  from pre have run:
    "subsets_loop cfg (fixed_cost_per_min_of cfg) (streams_map_of strs) rc (all_subsets ids)
        ([], 0, 0, 0) = Inr (tbl, a, b, c)"
    by (simp add: precompute_templates_def Let_def streams_map_of_def ids_def
        fixed_cost_per_min_of_def)
  from ratio_cache_of_index_wf [OF rc pre] have wf: "index_wf cfg tbl" .
  have "0 \<le> cost_per_batch t" if kt: "(key, ts) \<in> set tbl" and t: "t \<in> set ts" for key ts t
  proof -
    from subsets_loop_entries [OF run kt] obtain comb where
      comb: "ts = kept_templates (subset_templates cfg (fixed_cost_per_min_of cfg)
                (streams_map_of strs) rc comb)"
      by auto
    from t comb set_kept_templates
    have t': "t \<in> set (subset_templates cfg (fixed_cost_per_min_of cfg) (streams_map_of strs) rc comb)"
      by blast
    then obtain ss where ss: "sequence_err (map (dict_get (streams_map_of strs)) comb) = Inr ss"
      by (cases "sequence_err (map (dict_get (streams_map_of strs)) comb)")
        (auto simp: subset_templates_def)
    with t' obtain rs where
      rs: "eval_template cfg (fixed_cost_per_min_of cfg) comb ss rs = Inr (Some t)"
      by (auto simp: subset_templates_def feasible_templates_mem)
    from wf kt t have "template_wf cfg key t" by (auto simp: index_wf_def list_all_iff)
    then have "list_all (\<lambda>r. 1 \<le> r) (ratios t)" by (simp add: template_wf_def)
    with eval_template_facts(2) [OF rs] have "\<forall>r \<in> set rs. 0 \<le> r"
      by (auto simp: list_all_iff)
    then have "0 \<le> sum_list rs" by (intro sum_list_nonneg) simp
    from eval_template_cost_nonneg [OF rs nn this] show ?thesis .
  qed
  then show ?thesis by (auto simp: index_nonneg_def list_all_iff)
qed

subsection \<open>Two streams that round to one memo key\<close>

text \<open>Two streams, and the default configuration with \<open>ratio_sum_max = 2\<close>.\<close>

definition config_2 :: SystemConfig where
  "config_2 = default_config\<lparr>ratio_sum_max := 2\<rparr>"

definition template_A :: PhaseTemplate where
  "template_A =
     \<lparr>stream_ids = [''A''], ratios = [1],
      blend = \<lparr>bp_btu_per_lb = 4400, bp_pH = 7, bp_f_ppm = 0, bp_solid_pct = 0, bp_salt_ppm = 0\<rparr>,
      t_r_water = 0, t_r_diesel = 0, t_r_naoh = 0, t_r_ext = 0,
      t_W = 11, cost_per_batch = 37 / 165, sum_ratios = 1\<rparr>"

definition template_B :: PhaseTemplate where
  "template_B =
     \<lparr>stream_ids = [''B''], ratios = [1],
      blend = \<lparr>bp_btu_per_lb = 0, bp_pH = 7, bp_f_ppm = 0, bp_solid_pct = 0, bp_salt_ppm = 0\<rparr>,
      t_r_water = 0, t_r_diesel = 2200 / 16287, t_r_naoh = 0, t_r_ext = 2200 / 16287,
      t_W = 179157 / 18487, cost_per_batch = 1047019 / 2687355, sum_ratios = 1\<rparr>"

definition template_AB :: PhaseTemplate where
  "template_AB =
     \<lparr>stream_ids = [''A'', ''B''], ratios = [1, 1],
      blend = \<lparr>bp_btu_per_lb = 2200, bp_pH = 7, bp_f_ppm = 0, bp_solid_pct = 0, bp_salt_ppm = 0\<rparr>,
      t_r_water = 0, t_r_diesel = 0, t_r_naoh = 0, t_r_ext = 0,
      t_W = 11, cost_per_batch = 74 / 165, sum_ratios = 2\<rparr>"

definition index_AB :: templates_index where
  "index_AB = [({''A''}, [template_A]), ({''B''}, [template_B]), ({''A'', ''B''}, [template_AB])]"

lemma ratio_cache_of_2_2: "ratio_cache_of 2 2 = Inr [(1, [[1]]), (2, [[1, 1]])]"
  by (simp add: ratio_cache_of_def generate_ratios_def reduce_gcd_def upto.simps eval_nat_numeral)

lemma precompute_index_AB:
  "precompute_templates [stream_A, stream_B] config_2 [(1, [[1]]), (2, [[1, 1]])]
     = Inr (index_AB, 3, 0, 3)"
  by (simp add: index_AB_def template_A_def template_B_def template_AB_def config_2_def
      eval_defs stream_A_def stream_B_def blend_pH_const)

lemma initial_inventory_AB:
  "initial_inventory [stream_A, stream_B] = [(''A'', 104 / 10), (''B'', 6 / 10)]"
  by (simp add: initial_inventory_def dict_of_def stream_A_def stream_B_def)

lemma search_AB_cost:
  "\<exists>ps. search [stream_A, stream_B] config_2
      = Inr (Fin (69651 / 27145), ps,
             \<lparr>evaluated = 3, pruned_infeasible = 0, templates_kept = 3,
               pruned_bound = 0, memo_hits = 1\<rparr>)"
  by (simp add: config_2_def eval_defs stream_A_def stream_B_def blend_pH_const upto.simps)

lemma exhaustive_AB:
  "exhaustive_cost 2 index_AB [(''A'', 104 / 10), (''B'', 6 / 10)] 0 = Fin (407 / 165)"
  by (simp add: exhaustive_cost.simps index_AB_def template_A_def template_B_def template_AB_def
      eval_defs min_def)

subsection \<open>The memo-free search does not depend on the depth within the bound\<close>

lemma pure_depth_independent:
  shows "\<forall>n' d'. index_wf cfg tbl \<longrightarrow> distinct (map fst invt) \<longrightarrow>
           length (active_of invt) + depth \<le> n \<longrightarrow> length (active_of invt) + d' \<le> n' \<longrightarrow>
           pure_node cfg n tbl invt depth = pure_node cfg n' tbl invt d'"
    and "\<forall>n' d' cands. index_wf cfg tbl \<longrightarrow> distinct (map fst invt) \<longrightarrow>
           active = active_of invt \<longrightarrow> collect_candidates tbl active = Inr cands \<longrightarrow>
           set cs \<subseteq> set cands \<longrightarrow>
           length active + depth \<le> n \<longrightarrow> length active + d' \<le> n' \<longrightarrow>
           pure_loop cfg n tbl invt active depth cs best
             = pure_loop cfg n' tbl invt active d' cs best"
proof (induction cfg n tbl invt depth and cfg n tbl invt active depth cs best
    rule: pure_node_pure_loop.induct)
  case (1 cfg n tbl invt depth)
  show ?case
  proof (intro allI impI)
    fix n' d'
    assume wf: "index_wf cfg tbl" and d: "distinct (map fst invt)"
      and l: "length (active_of invt) + depth \<le> n" and l': "length (active_of invt) + d' \<le> n'"
    show "pure_node cfg n tbl invt depth = pure_node cfg n' tbl invt d'"
    proof (cases "active_of invt = []")
      case True
      then show ?thesis by (simp add: pure_node.simps)
    next
      case False
      with l l' have b: "\<not> n < depth" "\<not> n' < d'" by auto
      show ?thesis
      proof (cases "collect_candidates tbl (active_of invt)")
        case (Inl e)
        with False b show ?thesis by (simp add: pure_node.simps)
      next
        case (Inr cands)
        have "pure_loop cfg n tbl invt (active_of invt) depth (sort_key fst cands) (PInf, None)
            = pure_loop cfg n' tbl invt (active_of invt) d' (sort_key fst cands) (PInf, None)"
          by (rule "1.IH" [OF refl False b(1) Inr, rule_format, OF wf d refl Inr _ l l']) simp
        with False b Inr show ?thesis by (simp add: pure_node.simps)
      qed
    qed
  qed
next
  case (2 cfg n tbl invt active depth best)
  show ?case by simp
next
  case (3 cfg n tbl invt active depth cost tmpl nb rest b bp)
  show ?case
  proof (intro allI impI)
    fix n' d' cands
    assume wf: "index_wf cfg tbl" and d: "distinct (map fst invt)"
      and act: "active = active_of invt"
      and cc: "collect_candidates tbl active = Inr cands"
      and sub: "set ((cost, tmpl, nb) # rest) \<subseteq> set cands"
      and l: "length active + depth \<le> n" and l': "length active + d' \<le> n'"
    from sub have mem: "(cost, tmpl, nb) \<in> set cands" and sub': "set rest \<subseteq> set cands" by auto
    from cc act have cc': "collect_candidates tbl (active_of invt) = Inr cands" by simp
    show "pure_loop cfg n tbl invt active depth ((cost, tmpl, nb) # rest) (b, bp)
        = pure_loop cfg n' tbl invt active d' ((cost, tmpl, nb) # rest) (b, bp)"
    proof (cases "real_ge cost b")
      case True
      then show ?thesis by (simp add: pure_loop.simps)
    next
      case ng: False
      show ?thesis
      proof (cases "update_inventory invt active tmpl nb")
        case (Inl e)
        with ng show ?thesis by (simp add: pure_loop.simps)
      next
        case (Inr new_inv)
        from Inr act have upd: "update_inventory invt (active_of invt) tmpl nb = Inr new_inv"
          by simp
        note c = candidate_expansion [OF wf d cc' mem upd]
        from c(2) l l' act
        have ln: "length (active_of new_inv) + (depth + 1) \<le> n"
          and ln': "length (active_of new_inv) + (d' + 1) \<le> n'" by auto
        have eq: "pure_node cfg n tbl new_inv (depth + 1) = pure_node cfg n' tbl new_inv (d' + 1)"
          by (rule "3.IH"(1) [OF ng Inr, rule_format, OF wf c(1) ln ln'])
        show ?thesis
        proof (cases "pure_node cfg n tbl new_inv (depth + 1)")
          case (Inl e)
          with ng Inr eq show ?thesis by (simp add: pure_loop.simps)
        next
          case nr: (Inr res)
          obtain rc rps where res: "res = (rc, rps)" by (cases res)
          show ?thesis
          proof (cases "xless (xadd cost rc) b")
            case better: True
            show ?thesis
            proof (cases "make_phase cfg tmpl nb")
              case (Inl e)
              with ng Inr eq nr res better show ?thesis by (simp add: pure_loop.simps)
            next
              case mp: (Inr phase)
              have "pure_loop cfg n tbl invt active depth rest (xadd cost rc, Some (phase # rps))
                  = pure_loop cfg n' tbl invt active d' rest (xadd cost rc, Some (phase # rps))"
                by (rule "3.IH"(2) [OF ng Inr nr [unfolded res] refl refl better mp, rule_format,
                      OF wf d act cc sub' l l'])
              with ng Inr eq nr res better mp show ?thesis by (simp add: pure_loop.simps)
            qed
          next
            case worse: False
            have "pure_loop cfg n tbl invt active depth rest (b, bp)
                = pure_loop cfg n' tbl invt active d' rest (b, bp)"
              by (rule "3.IH"(3) [OF ng Inr nr [unfolded res] refl refl worse, rule_format,
                    OF wf d act cc sub' l l'])
            with ng Inr eq nr res worse show ?thesis by (simp add: pure_loop.simps)
          qed
        qed
      qed
    qed
  qed
qed

subsection \<open>The pair of a state and the memo table\<close>

text \<open>The phase that processes all 10.4 L of stream \<open>A\<close> alone.\<close>

definition phase_A_full :: PhaseResult where
  "phase_A_full =
     \<lparr>streams = [(''A'', 1)],
      blend_props = \<lparr>bp_btu_per_lb = 4400, bp_pH = 7, bp_f_ppm = 0, bp_solid_pct = 0,
                      bp_salt_ppm = 0\<rparr>,
      r_water = 0, r_diesel = 0, r_naoh = 0, r_ext = 0, W = 11,
      runtime_min = 52 / 55, Q_phase = 52 / 5, cost_diesel = 0, cost_naoh = 0, cost_water = 0,
      cost_electricity = 208 / 275, cost_labor = 52 / 33, cost_total = 1924 / 825\<rparr>"

definition memo_A :: memo_table where
  "memo_A = [{(''A'', 10)} \<mapsto> (Fin (1924 / 825), [phase_A_full])]"

lemmas eval_AB = index_AB_def template_A_def template_B_def template_AB_def config_2_def
  initial_stats_def phase_A_full_def memo_A_def

lemma search_node_A_full:
  "search_node config_2 2 index_AB [(''A'', 52 / 5), (''B'', 0)] 1
     (Map.empty, initial_stats 3 0 3)
   = Inr ((Fin (1924 / 825), [phase_A_full]), memo_A, initial_stats 3 0 3)"
  by (simp add: eval_AB eval_defs)

lemma search_node_A_hit:
  "search_node config_2 2 index_AB [(''A'', 49 / 5), (''B'', 0)] 1
     (memo_A, initial_stats 3 0 3)
   = Inr ((Fin (1924 / 825), [phase_A_full]), memo_A,
          (initial_stats 3 0 3)\<lparr>memo_hits := 1\<rparr>)"
  by (simp add: eval_AB eval_defs)

lemma search_node_A_rest:
  "map_sum id (fst \<circ> fst)
     (search_node config_2 2 index_AB [(''A'', 49 / 5), (''B'', 0)] 1
        (Map.empty, initial_stats 3 0 3))
   = Inr (Fin (1813 / 825))"
  by (simp add: eval_AB eval_defs)

lemma exhaustive_A_rest:
  "exhaustive_cost 2 index_AB [(''A'', 49 / 5), (''B'', 0)] 1 = Fin (1813 / 825)"
  by (simp add: exhaustive_cost.simps eval_AB eval_defs min_def)

lemma exhaustive_A_canonical:
  "exhaustive_cost 2 index_AB [(''A'', 10), (''B'', 0)] 1 = Fin (74 / 33)"
  by (simp add: exhaustive_cost.simps eval_AB eval_defs min_def)

lemma index_AB_wf: "index_wf config_2 index_AB"
proof -
  have l: "length [stream_A, stream_B] = 2" by simp
  have r: "ratio_sum_max config_2 = 2" by (simp add: config_2_def)
  have "ratio_cache_of (length [stream_A, stream_B]) (ratio_sum_max config_2)
      = Inr [(1, [[1]]), (2, [[1, 1]])]"
    unfolding l r by (rule ratio_cache_of_2_2)
  from ratio_cache_of_index_wf [OF this precompute_index_AB] show ?thesis .
qed

lemma index_AB_nonneg: "index_nonneg index_AB"
  by (simp add: index_nonneg_def index_AB_def template_A_def template_B_def template_AB_def)

subsection \<open>What a schedule consumes\<close>

text \<open>
  A phase records its blend ratio (\<open>streams\<close>) and the total volume \<open>Q_phase\<close> it processes,
  which the search sets to \<^verbatim>\<open>sum_ratios * num_batches\<close>. Its batch count is therefore
  \<open>Q_phase\<close> divided by the sum of its ratio components, and it consumes of each of its
  streams the ratio component times the batch count.
\<close>

definition phase_batches :: "PhaseResult \<Rightarrow> real" where
  "phase_batches ph = Q_phase ph / of_int (sum_list (map snd (streams ph)))"

definition phase_consumption :: "PhaseResult \<Rightarrow> string \<Rightarrow> real" where
  "phase_consumption ph sid =
     (case map_of (streams ph) sid of Some r \<Rightarrow> of_int r * phase_batches ph | None \<Rightarrow> 0)"

definition total_consumption :: "PhaseResult list \<Rightarrow> string \<Rightarrow> real" where
  "total_consumption ps sid = sum_list (map (\<lambda>ph. phase_consumption ph sid) ps)"

definition remaining_after :: "inventory \<Rightarrow> PhaseResult list \<Rightarrow> inventory" where
  "remaining_after invt ps = map (\<lambda>(sid, q). (sid, q - total_consumption ps sid)) invt"

lemma dict_set_append: "k \<notin> fst ` set d \<Longrightarrow> dict_set d k v = d @ [(k, v)]"
  by (induction d) auto

lemma fold_dict_set_distinct:
  "distinct (map fst ps) \<Longrightarrow> fst ` set ps \<inter> fst ` set d = {}
   \<Longrightarrow> fold (\<lambda>(k, v) d. dict_set d k v) ps d = d @ ps"
proof (induction ps arbitrary: d)
  case Nil
  then show ?case by simp
next
  case (Cons p ps)
  obtain k v where p: "p = (k, v)" by (cases p)
  from Cons.prems p have nk: "k \<notin> fst ` set d" by auto
  from Cons.prems p have "distinct (map fst ps)"
    and "fst ` set ps \<inter> fst ` set (d @ [(k, v)]) = {}" by auto
  from Cons.IH [OF this] show ?case by (simp add: p dict_set_append [OF nk])
qed

lemma dict_of_distinct: "distinct (map fst ps) \<Longrightarrow> dict_of ps = ps"
  using fold_dict_set_distinct [of ps "[]"] by (simp add: dict_of_def)

lemma sum_list_pos_ratios:
  "list_all (\<lambda>r. 1 \<le> r) rs \<Longrightarrow> rs \<noteq> [] \<Longrightarrow> 0 < sum_list (rs :: int list)"
proof (induction rs)
  case Nil
  then show ?case by simp
next
  case (Cons r rs)
  then show ?case by (cases rs) auto
qed

lemma phase_consumption_make_phase:
  assumes wf: "template_wf cfg key tmpl" and mp: "make_phase cfg tmpl nb = Inr phase"
  shows "phase_consumption phase sid =
           (case map_of (zip (stream_ids tmpl) (ratios tmpl)) sid of
              Some r \<Rightarrow> of_int r * nb | None \<Rightarrow> 0)"
proof -
  let ?zs = "zip (stream_ids tmpl) (ratios tmpl)"
  from wf have len: "length (ratios tmpl) = length (stream_ids tmpl)"
    and di: "distinct (stream_ids tmpl)" and ne: "stream_ids tmpl \<noteq> []"
    and pos: "list_all (\<lambda>r. 1 \<le> r) (ratios tmpl)"
    and sr: "sum_ratios tmpl = sum_list (ratios tmpl)"
    by (simp_all add: template_wf_def)
  from len have f: "map fst ?zs = stream_ids tmpl" and s: "map snd ?zs = ratios tmpl"
    by simp_all
  from di f have dz: "distinct (map fst ?zs)" by simp
  from mp have st: "streams phase = dict_of ?zs"
    and qp: "Q_phase phase = of_int (sum_ratios tmpl) * nb"
    by (auto simp: make_phase_def Let_def ebind_Inr_iff fdiv_def split: if_splits)
  from st dict_of_distinct [OF dz] have st': "streams phase = ?zs" by simp
  from len ne have "ratios tmpl \<noteq> []" by auto
  from sum_list_pos_ratios [OF pos this] have "0 < sum_list (ratios tmpl)" .
  with sr qp st' s have "phase_batches phase = nb"
    by (simp add: phase_batches_def)
  with st' show ?thesis by (simp add: phase_consumption_def split: option.splits)
qed

lemma consume_step:
  assumes d: "distinct (map fst invt)"
    and wf: "template_wf cfg key tmpl"
    and sub: "key \<subseteq> set (map fst (active_of invt))"
    and upd: "update_inventory invt (active_of invt) tmpl nb = Inr new_inv"
    and mp: "make_phase cfg tmpl nb = Inr phase"
    and q: "map_of invt sid = Some q"
  shows "map_of new_inv sid = Some (q - phase_consumption phase sid)"
proof -
  let ?zs = "zip (stream_ids tmpl) (ratios tmpl)"
  from wf have len: "length (ratios tmpl) = length (stream_ids tmpl)"
    and di: "distinct (stream_ids tmpl)" and key: "set (stream_ids tmpl) = key"
    by (simp_all add: template_wf_def)
  from len di have dz: "distinct (map fst ?zs)" by simp
  from upd have f: "fold (assign_step (active_of invt) nb) ?zs (Inr invt) = Inr new_inv"
    by (simp add: update_inventory_fold)
  note m = fold_assign_step(1) [OF f dz, of sid]
  note pc = phase_consumption_make_phase [OF wf mp, of sid]
  show ?thesis
  proof (cases "map_of ?zs sid")
    case None
    with m pc q show ?thesis by simp
  next
    case (Some r)
    then have "(sid, r) \<in> set ?zs" by (rule map_of_SomeD)
    then have "sid \<in> set (stream_ids tmpl)" by (rule set_zip_leftD)
    with key sub have "sid \<in> set (map fst (active_of invt))" by auto
    with active_ids_iff [OF d] q have "ACTIVE_THRESHOLD_L < q" by auto
    with map_of_active_of [OF d, of sid] q have "map_of (active_of invt) sid = Some q" by simp
    with m pc Some show ?thesis by simp
  qed
qed

lemma depleted_iff:
  assumes "distinct (map fst invt)"
  shows "list_all (\<lambda>(sid, q). q \<le> ACTIVE_THRESHOLD_L) (remaining_after invt ps)
     \<longleftrightarrow> (\<forall>sid q. map_of invt sid = Some q \<longrightarrow> q - total_consumption ps sid \<le> ACTIVE_THRESHOLD_L)"
  using assms by (auto simp: list_all_iff remaining_after_def)

lemma depleted_terminal:
  assumes "active_of invt = []"
  shows "list_all (\<lambda>(sid, q). q \<le> ACTIVE_THRESHOLD_L) (remaining_after invt [])"
proof -
  from assms have "\<forall>x \<in> set invt. \<not> (case x of (sid, qty) \<Rightarrow> ACTIVE_THRESHOLD_L < qty)"
    unfolding active_of_def filter_empty_conv by blast
  then show ?thesis
    by (auto simp: list_all_iff remaining_after_def total_consumption_def)
qed

lemma depleted_step:
  assumes d: "distinct (map fst invt)"
    and wf: "template_wf cfg key tmpl"
    and sub: "key \<subseteq> set (map fst (active_of invt))"
    and nbo: "num_batches_of (active_of invt) tmpl = Inr nb"
    and upd: "update_inventory invt (active_of invt) tmpl nb = Inr new_inv"
    and mp: "make_phase cfg tmpl nb = Inr phase"
    and rest: "list_all (\<lambda>(sid, q). q \<le> ACTIVE_THRESHOLD_L) (remaining_after new_inv rps)"
  shows "list_all (\<lambda>(sid, q). q \<le> ACTIVE_THRESHOLD_L) (remaining_after invt (phase # rps))"
proof -
  from expansion_step(2) [OF d wf sub nbo upd] have dn: "distinct (map fst new_inv)" .
  show ?thesis
    unfolding depleted_iff [OF d]
  proof (intro allI impI)
    fix sid q
    assume "map_of invt sid = Some q"
    from consume_step [OF d wf sub upd mp this]
    have "map_of new_inv sid = Some (q - phase_consumption phase sid)" .
    with rest [unfolded depleted_iff [OF dn]]
    have "q - phase_consumption phase sid - total_consumption rps sid \<le> ACTIVE_THRESHOLD_L"
      by blast
    then show "q - total_consumption (phase # rps) sid \<le> ACTIVE_THRESHOLD_L"
      by (simp add: total_consumption_def)
  qed
qed

lemma pure_depletes:
  shows "\<forall>c ps. pure_node cfg n tbl invt depth = Inr (Fin c, ps) \<longrightarrow>
           index_wf cfg tbl \<longrightarrow> distinct (map fst invt) \<longrightarrow>
           list_all (\<lambda>(sid, q). q \<le> ACTIVE_THRESHOLD_L) (remaining_after invt ps)"
    and "\<forall>b' ps' cands. pure_loop cfg n tbl invt active depth cs best = Inr (b', Some ps') \<longrightarrow>
           index_wf cfg tbl \<longrightarrow> distinct (map fst invt) \<longrightarrow>
           active = active_of invt \<longrightarrow> collect_candidates tbl active = Inr cands \<longrightarrow>
           set cs \<subseteq> set cands \<longrightarrow>
           (\<forall>ps. snd best = Some ps \<longrightarrow>
              list_all (\<lambda>(sid, q). q \<le> ACTIVE_THRESHOLD_L) (remaining_after invt ps)) \<longrightarrow>
           list_all (\<lambda>(sid, q). q \<le> ACTIVE_THRESHOLD_L) (remaining_after invt ps')"
proof (induction cfg n tbl invt depth and cfg n tbl invt active depth cs best
    rule: pure_node_pure_loop.induct)
  case (1 cfg n tbl invt depth)
  show ?case
  proof (intro allI impI)
    fix c ps
    assume run: "pure_node cfg n tbl invt depth = Inr (Fin c, ps)"
      and wf: "index_wf cfg tbl" and d: "distinct (map fst invt)"
    from run show "list_all (\<lambda>(sid, q). q \<le> ACTIVE_THRESHOLD_L) (remaining_after invt ps)"
    proof (cases rule: pure_node_cases)
      case terminal
      with depleted_terminal show ?thesis by simp
    next
      case bound
      then show ?thesis by simp
    next
      case (fresh cands b bp)
      from fresh(5) obtain ps0 where bp: "bp = Some ps0" and ps: "ps = ps0"
        by (cases bp) auto
      have "list_all (\<lambda>(sid, q). q \<le> ACTIVE_THRESHOLD_L) (remaining_after invt ps0)"
        by (rule "1.IH" [OF refl fresh(1) _ fresh(3), rule_format,
              OF _ fresh(4) [unfolded bp] wf d refl fresh(3)])
           (use fresh(2) in simp_all)
      with ps show ?thesis by simp
    qed
  qed
next
  case (2 cfg n tbl invt active depth best)
  show ?case by (cases best) auto
next
  case (3 cfg n tbl invt active depth cost tmpl nb rest b bp)
  show ?case
  proof (intro allI impI)
    fix b' ps' cands
    assume run: "pure_loop cfg n tbl invt active depth ((cost, tmpl, nb) # rest) (b, bp) = Inr (b', Some ps')"
      and wf: "index_wf cfg tbl" and d: "distinct (map fst invt)"
      and act: "active = active_of invt"
      and cc: "collect_candidates tbl active = Inr cands"
      and sub: "set ((cost, tmpl, nb) # rest) \<subseteq> set cands"
      and bo: "\<forall>ps. snd (b, bp) = Some ps \<longrightarrow>
              list_all (\<lambda>(sid, q). q \<le> ACTIVE_THRESHOLD_L) (remaining_after invt ps)"
    from sub have mem: "(cost, tmpl, nb) \<in> set cands" and sub': "set rest \<subseteq> set cands" by auto
    from cc act have cc': "collect_candidates tbl (active_of invt) = Inr cands" by simp
    from run show "list_all (\<lambda>(sid, q). q \<le> ACTIVE_THRESHOLD_L) (remaining_after invt ps')"
    proof (cases rule: pure_loop_cons_cases)
      case pruned
      with bo show ?thesis by simp
    next
      case (better new_inv rc rps phase)
      from better(2) act have upd: "update_inventory invt (active_of invt) tmpl nb = Inr new_inv"
        by simp
      from candidate_expansion(1) [OF wf d cc' mem upd] have dn: "distinct (map fst new_inv)" .
      from index_wf_template [OF wf cc' mem] obtain key where
        k: "template_wf cfg key tmpl" "key \<subseteq> set (map fst (active_of invt))"
          "num_batches_of (active_of invt) tmpl = Inr nb"
        by blast
      from xless_xadd_Fin [OF better(4)] obtain x where x: "rc = Fin x" by blast
      have "list_all (\<lambda>(sid, q). q \<le> ACTIVE_THRESHOLD_L) (remaining_after new_inv rps)"
        by (rule "3.IH"(1) [OF better(1) better(2), rule_format, OF better(3) [unfolded x] wf dn])
      from depleted_step [OF d k upd better(5) this]
      have ok: "\<forall>ps. snd (xadd cost rc, Some (phase # rps)) = Some ps \<longrightarrow>
              list_all (\<lambda>(sid, q). q \<le> ACTIVE_THRESHOLD_L) (remaining_after invt ps)"
        by simp
      show ?thesis
        by (rule "3.IH"(2) [OF better(1) better(2) better(3) refl refl better(4) better(5),
              rule_format, OF better(6) wf d act cc sub' ok [rule_format]])
    next
      case (worse new_inv rc rps)
      show ?thesis
        by (rule "3.IH"(3) [OF worse(1) worse(2) worse(3) refl refl worse(4),
              rule_format, OF worse(5) wf d act cc sub' bo [rule_format]])
    qed
  qed
qed

subsection \<open>Three streams whose schedule leaves 0.6 L behind\<close>

definition feed_A :: WasteStream where
  "feed_A = \<lparr> stream_id = ''A'', quantity_L = 3, btu_per_lb = 4400, pH = 7,
                f_ppm = 0, solid_pct = 2, salt_ppm = 0, moisture_pct = 0 \<rparr>"

definition feed_B :: WasteStream where
  "feed_B = \<lparr> stream_id = ''B'', quantity_L = 6 / 10, btu_per_lb = 4400, pH = 7,
                f_ppm = 0, solid_pct = 30, salt_ppm = 0, moisture_pct = 0 \<rparr>"

definition feed_C :: WasteStream where
  "feed_C = \<lparr> stream_id = ''C'', quantity_L = 104 / 10, btu_per_lb = 4400, pH = 7,
                f_ppm = 0, solid_pct = 0, salt_ppm = 0, moisture_pct = 0 \<rparr>"

text \<open>The phases of the schedules below: a blend or a single stream, and the volume.\<close>

definition phase_blend_AB :: PhaseResult where
  "phase_blend_AB =
     \<lparr>streams = [(''A'', 1), (''B'', 1)],
      blend_props = \<lparr>bp_btu_per_lb = 4400, bp_pH = 7, bp_f_ppm = 0, bp_solid_pct = 16,
                      bp_salt_ppm = 0\<rparr>,
      r_water = 1 / 15, r_diesel = 0, r_naoh = 0, r_ext = 1 / 15, W = 165 / 16,
      runtime_min = 32 / 275, Q_phase = 6 / 5, cost_diesel = 0, cost_naoh = 0,
      cost_water = 199 / 1250000, cost_electricity = 128 / 1375, cost_labor = 32 / 165,
      cost_total = 11846567 / 41250000\<rparr>"

definition phase_solo_A :: "real \<Rightarrow> PhaseResult" where
  "phase_solo_A q =
     \<lparr>streams = [(''A'', 1)],
      blend_props = \<lparr>bp_btu_per_lb = 4400, bp_pH = 7, bp_f_ppm = 0, bp_solid_pct = 2,
                      bp_salt_ppm = 0\<rparr>,
      r_water = 0, r_diesel = 0, r_naoh = 0, r_ext = 0, W = 11,
      runtime_min = q / 11, Q_phase = q, cost_diesel = 0, cost_naoh = 0, cost_water = 0,
      cost_electricity = 4 * q / 55, cost_labor = 5 * q / 33, cost_total = 37 * q / 165\<rparr>"

definition phase_solo_C :: "real \<Rightarrow> PhaseResult" where
  "phase_solo_C q =
     \<lparr>streams = [(''C'', 1)],
      blend_props = \<lparr>bp_btu_per_lb = 4400, bp_pH = 7, bp_f_ppm = 0, bp_solid_pct = 0,
                      bp_salt_ppm = 0\<rparr>,
      r_water = 0, r_diesel = 0, r_naoh = 0, r_ext = 0, W = 11,
      runtime_min = q / 11, Q_phase = q, cost_diesel = 0, cost_naoh = 0, cost_water = 0,
      cost_electricity = 4 * q / 55, cost_labor = 5 * q / 33, cost_total = 37 * q / 165\<rparr>"

lemmas eval_feed = config_2_def feed_A_def feed_B_def feed_C_def blend_pH_const doubleton_eq_iff
  upto.simps phase_blend_AB_def phase_solo_A_def phase_solo_C_def

lemmas eval_consumption = remaining_after_def total_consumption_def phase_consumption_def
  phase_batches_def initial_inventory_def dict_of_def

lemma search_feed_ABC:
  "search [feed_A, feed_B, feed_C] config_2
     = Inr (Fin (124696567 / 41250000),
            [phase_blend_AB, phase_solo_A (12 / 5), phase_solo_C (49 / 5)],
            \<lparr>evaluated = 6, pruned_infeasible = 0, templates_kept = 6, pruned_bound = 0,
              memo_hits = 10\<rparr>)"
  by (simp add: eval_defs eval_feed)

lemma remaining_feed_ABC:
  "remaining_after (initial_inventory [feed_A, feed_B, feed_C])
     [phase_blend_AB, phase_solo_A (12 / 5), phase_solo_C (49 / 5)]
     = [(''A'', 0), (''B'', 0), (''C'', 3 / 5)]"
  by (simp add: eval_consumption eval_feed)

text \<open>
  Claim C1, as stated, on three streams of strictly positive quantity, \<open>A\<close> = 3 L,
  \<open>B\<close> = 0.6 L and \<open>C\<close> = 10.4 L, with \<open>ratio_sum_max = 2\<close>: the search returns a finite cost
  and three phases, the blend of \<open>A\<close> and \<open>B\<close> (0.6 L of each), \<open>A\<close> alone (2.4 L) and \<open>C\<close>
  alone (9.8 L). The last phase was cached for the state \<open>C\<close> = 9.8 L and is returned for the
  state \<open>C\<close> = 10.4 L, which rounds to the same key; 0.6 L of \<open>C\<close> remain, above the 0.5 L
  threshold.
\<close>

theorem schedule_leaves_inventory_counterexample:
  "search [feed_A, feed_B, feed_C] config_2
     = Inr (Fin (124696567 / 41250000),
            [phase_blend_AB, phase_solo_A (12 / 5), phase_solo_C (49 / 5)],
            \<lparr>evaluated = 6, pruned_infeasible = 0, templates_kept = 6, pruned_bound = 0,
              memo_hits = 10\<rparr>)
   \<and> map quantity_L [feed_A, feed_B, feed_C] = [3, 3 / 5, 52 / 5]
   \<and> remaining_after (initial_inventory [feed_A, feed_B, feed_C])
        [phase_blend_AB, phase_solo_A (12 / 5), phase_solo_C (49 / 5)]
      = [(''A'', 0), (''B'', 0), (''C'', 3 / 5)]
   \<and> ACTIVE_THRESHOLD_L < 3 / 5"
proof -
  have "map quantity_L [feed_A, feed_B, feed_C] = [3, 3 / 5, 52 / 5]"
    by (simp add: feed_A_def feed_B_def feed_C_def)
  moreover have "ACTIVE_THRESHOLD_L < 3 / 5" by (simp add: ACTIVE_THRESHOLD_L_def)
  ultimately show ?thesis using search_feed_ABC remaining_feed_ABC by blast
qed

subsection \<open>The search looks at the active part of the inventory only\<close>

lemma dict_set_map:
  "distinct (map fst d) \<Longrightarrow> k \<in> fst ` set d
   \<Longrightarrow> dict_set d k v = map (\<lambda>(sid, q). if sid = k then (sid, v) else (sid, q)) d"
proof (induction d)
  case Nil
  then show ?case by simp
next
  case (Cons p d)
  obtain k' v' where p: "p = (k', v')" by (cases p)
  show ?case
  proof (cases "k' = k")
    case True
    with Cons.prems p have "k \<notin> fst ` set d" by auto
    then have "map (\<lambda>(sid, q). if sid = k then (sid, v) else (sid, q)) d = d"
      by (induction d) auto
    with True p show ?thesis by simp
  next
    case False
    with Cons.prems p have "distinct (map fst d)" "k \<in> fst ` set d" by auto
    from Cons.IH [OF this] False p show ?thesis by simp
  qed
qed

lemma fold_assign_step_Cons:
  assumes "fold (assign_step active nb) ((k, r) # ps) (Inr d) = Inr d'"
  shows "\<exists>q. map_of active k = Some q
      \<and> fold (assign_step active nb) ps (Inr (dict_set d k (q - of_int r * nb))) = Inr d'"
proof -
  have one: "assign_step active nb (k, r) (Inr d) =
      (case map_of active k of None \<Rightarrow> Inl KeyError
       | Some q \<Rightarrow> Inr (dict_set d k (q - of_int r * nb)))"
    by (simp add: assign_step_def ebind_def dict_get_def split: option.splits)
  from assms have f: "fold (assign_step active nb) ps (assign_step active nb (k, r) (Inr d)) = Inr d'"
    by simp
  show ?thesis
  proof (cases "map_of active k")
    case None
    with f one show ?thesis by (simp add: fold_assign_step_Inl)
  next
    case (Some q)
    with f one show ?thesis by simp
  qed
qed

lemma fold_assign_step_map:
  assumes "fold (assign_step active nb) ps (Inr d) = Inr d'"
    and "distinct (map fst ps)" and "distinct (map fst d)" and "fst ` set ps \<subseteq> fst ` set d"
  shows "d' = map (\<lambda>(sid, q). (sid, case map_of ps sid of
                                       Some r \<Rightarrow> the (map_of active sid) - of_int r * nb
                                     | None \<Rightarrow> q)) d"
  using assms
proof (induction ps arbitrary: d)
  case Nil
  have "map (\<lambda>(sid, q). (sid, q)) d = d" by (induction d) auto
  with Nil show ?case by simp
next
  case (Cons p ps)
  obtain k r where p: "p = (k, r)" by (cases p)
  from fold_assign_step_Cons [OF Cons.prems(1) [unfolded p]] obtain q0 where
    q0: "map_of active k = Some q0"
    and f: "fold (assign_step active nb) ps (Inr (dict_set d k (q0 - of_int r * nb))) = Inr d'"
    by blast
  let ?d1 = "dict_set d k (q0 - of_int r * nb)"
  from Cons.prems(2) p have dps: "distinct (map fst ps)" and nk: "k \<notin> fst ` set ps" by auto
  from nk have none: "map_of ps k = None" by (simp add: map_of_eq_None_iff)
  from Cons.prems(4) p have kd: "k \<in> fst ` set d" and sub: "fst ` set ps \<subseteq> fst ` set d"
    by auto
  have d1: "distinct (map fst ?d1)" by (rule distinct_dict_set [OF Cons.prems(3)])
  have s1: "fst ` set ps \<subseteq> fst ` set ?d1" using sub by (auto simp: fst_set_dict_set)
  note IH = Cons.IH [OF f dps d1 s1]
  have "?d1 = map (\<lambda>(sid, q). if sid = k then (sid, q0 - of_int r * nb) else (sid, q)) d"
    by (rule dict_set_map [OF Cons.prems(3) kd])
  with IH have "d' = map (\<lambda>(sid, q). (sid, case map_of ps sid of
                                       Some r \<Rightarrow> the (map_of active sid) - of_int r * nb
                                     | None \<Rightarrow> q))
                    (map (\<lambda>(sid, q). if sid = k then (sid, q0 - of_int r * nb) else (sid, q)) d)"
    by simp
  also have "\<dots> = map (\<lambda>(sid, q). (sid, case map_of (p # ps) sid of
                                       Some r \<Rightarrow> the (map_of active sid) - of_int r * nb
                                     | None \<Rightarrow> q)) d"
    using none q0 by (auto simp: p)
  finally show ?case .
qed

lemma filter_map_filter:
  "(\<And>x. x \<in> set xs \<Longrightarrow> \<not> P x \<Longrightarrow> \<not> P (g x))
   \<Longrightarrow> filter P (map g xs) = filter P (map g (filter P xs))"
  by (induction xs) auto

text \<open>The assignment \<^verbatim>\<open>new_inv[sid] = active[sid] - ratio * num_batches\<close> on one entry.\<close>

definition consume_entry :: "PhaseTemplate \<Rightarrow> real \<Rightarrow> string \<times> real \<Rightarrow> string \<times> real" where
  "consume_entry tmpl nb = (\<lambda>(sid, q).
     (sid, case map_of (zip (stream_ids tmpl) (ratios tmpl)) sid of
             Some r \<Rightarrow> q - of_int r * nb | None \<Rightarrow> q))"

lemma update_inventory_map:
  assumes d: "distinct (map fst invt)"
    and wf: "template_wf cfg key tmpl"
    and sub: "key \<subseteq> set (map fst (active_of invt))"
    and upd: "update_inventory invt (active_of invt) tmpl nb = Inr new_inv"
  shows "new_inv = map (consume_entry tmpl nb) invt"
    and "active_of new_inv = active_of (map (consume_entry tmpl nb) (active_of invt))"
proof -
  let ?zs = "zip (stream_ids tmpl) (ratios tmpl)"
  from wf have len: "length (ratios tmpl) = length (stream_ids tmpl)"
    and di: "distinct (stream_ids tmpl)" and key: "set (stream_ids tmpl) = key"
    by (simp_all add: template_wf_def)
  from len di have dz: "distinct (map fst ?zs)" by simp
  from len have fz: "fst ` set ?zs = set (stream_ids tmpl)"
    by (metis list.set_map map_fst_zip)
  have act_sub: "set (map fst (active_of invt)) \<subseteq> fst ` set invt"
    by (auto simp: active_of_def)
  from fz key sub act_sub have sz: "fst ` set ?zs \<subseteq> fst ` set invt" by auto
  from upd have f: "fold (assign_step (active_of invt) nb) ?zs (Inr invt) = Inr new_inv"
    by (simp add: update_inventory_fold)
  note m = fold_assign_step_map [OF f dz d sz]
  have in_tmpl: "map_of (active_of invt) sid = Some q \<and> ACTIVE_THRESHOLD_L < q"
    if "(sid, q) \<in> set invt" "map_of ?zs sid = Some r" for sid q r
  proof -
    from that(2) have "(sid, r) \<in> set ?zs" by (rule map_of_SomeD)
    then have "sid \<in> set (stream_ids tmpl)" by (rule set_zip_leftD)
    with key sub have "sid \<in> set (map fst (active_of invt))" by auto
    moreover from that(1) d have "map_of invt sid = Some q" by simp
    ultimately have "ACTIVE_THRESHOLD_L < q" using active_ids_iff [OF d] by auto
    with map_of_active_of [OF d, of sid] \<open>map_of invt sid = Some q\<close> show ?thesis by simp
  qed
  have "map (\<lambda>(sid, q). (sid, case map_of ?zs sid of
                                 Some r \<Rightarrow> the (map_of (active_of invt) sid) - of_int r * nb
                               | None \<Rightarrow> q)) invt
      = map (consume_entry tmpl nb) invt"
  proof (rule map_cong [OF refl])
    fix x assume x: "x \<in> set invt"
    obtain sid q where xx: "x = (sid, q)" by (cases x)
    show "(case x of (sid, q) \<Rightarrow> (sid, case map_of ?zs sid of
                                 Some r \<Rightarrow> the (map_of (active_of invt) sid) - of_int r * nb
                               | None \<Rightarrow> q)) = consume_entry tmpl nb x"
    proof (cases "map_of ?zs sid")
      case None
      with xx show ?thesis by (simp add: consume_entry_def)
    next
      case (Some r)
      from in_tmpl [OF x [unfolded xx] Some] Some xx show ?thesis
        by (simp add: consume_entry_def)
    qed
  qed
  with m show eq: "new_inv = map (consume_entry tmpl nb) invt" by simp
  have keep: "\<not> (case consume_entry tmpl nb x of (sid, qty) \<Rightarrow> ACTIVE_THRESHOLD_L < qty)"
    if "x \<in> set invt" "\<not> (case x of (sid, qty) \<Rightarrow> ACTIVE_THRESHOLD_L < qty)" for x
  proof -
    obtain sid q where xx: "x = (sid, q)" by (cases x)
    show ?thesis
    proof (cases "map_of ?zs sid")
      case None
      with xx that(2) show ?thesis by (simp add: consume_entry_def)
    next
      case (Some r)
      from in_tmpl [OF that(1) [unfolded xx] Some] that(2) xx show ?thesis by simp
    qed
  qed
  show "active_of new_inv = active_of (map (consume_entry tmpl nb) (active_of invt))"
    unfolding eq active_of_def by (rule filter_map_filter) (rule keep)
qed

lemma fold_assign_step_fails:
  "fold (assign_step active nb) ps (Inr d1) = Inl e
   \<Longrightarrow> fold (assign_step active nb) ps (Inr d2) = Inl e"
proof (induction ps arbitrary: d1 d2)
  case Nil
  then show ?case by simp
next
  case (Cons p ps)
  obtain k r where p: "p = (k, r)" by (cases p)
  have one: "assign_step active nb (k, r) (Inr d) =
      (case map_of active k of None \<Rightarrow> Inl KeyError
       | Some q \<Rightarrow> Inr (dict_set d k (q - of_int r * nb)))" for d
    by (simp add: assign_step_def ebind_def dict_get_def split: option.splits)
  show ?case
  proof (cases "map_of active k")
    case None
    with Cons.prems one p show ?thesis by (simp add: fold_assign_step_Inl)
  next
    case (Some q)
    with Cons.prems one p
    have "fold (assign_step active nb) ps (Inr (dict_set d1 k (q - of_int r * nb))) = Inl e"
      by simp
    from Cons.IH [OF this, of "dict_set d2 k (q - of_int r * nb)"] Some one p
    show ?thesis by simp
  qed
qed

lemma update_inventory_same_active:
  assumes d1: "distinct (map fst inv1)" and d2: "distinct (map fst inv2)"
    and a: "active_of inv1 = active_of inv2"
    and wf: "template_wf cfg key tmpl"
    and sub: "key \<subseteq> set (map fst (active_of inv1))"
  shows "(case update_inventory inv1 (active_of inv1) tmpl nb of
            Inl e \<Rightarrow> update_inventory inv2 (active_of inv1) tmpl nb = Inl e
          | Inr n1 \<Rightarrow> (\<exists>n2. update_inventory inv2 (active_of inv1) tmpl nb = Inr n2
                          \<and> active_of n1 = active_of n2))"
proof (cases "update_inventory inv1 (active_of inv1) tmpl nb")
  case (Inl e)
  then have "update_inventory inv2 (active_of inv1) tmpl nb = Inl e"
    unfolding update_inventory_fold by (rule fold_assign_step_fails)
  with Inl show ?thesis by simp
next
  case (Inr n1)
  show ?thesis
  proof (cases "update_inventory inv2 (active_of inv1) tmpl nb")
    case (Inl e)
    then have "update_inventory inv1 (active_of inv1) tmpl nb = Inl e"
      unfolding update_inventory_fold by (rule fold_assign_step_fails)
    with Inr show ?thesis by simp
  next
    case n2: (Inr n2)
    from update_inventory_map(2) [OF d1 wf sub Inr]
    have "active_of n1 = active_of (map (consume_entry tmpl nb) (active_of inv1))" .
    moreover from update_inventory_map(2) [OF d2 wf, of nb n2] sub n2 a
    have "active_of n2 = active_of (map (consume_entry tmpl nb) (active_of inv1))" by simp
    ultimately show ?thesis using Inr n2 by simp
  qed
qed

lemma pure_active_only:
  shows "\<forall>inv2. index_wf cfg tbl \<longrightarrow> distinct (map fst invt) \<longrightarrow> distinct (map fst inv2) \<longrightarrow>
           active_of invt = active_of inv2 \<longrightarrow>
           pure_node cfg n tbl invt depth = pure_node cfg n tbl inv2 depth"
    and "\<forall>inv2 cands. index_wf cfg tbl \<longrightarrow> distinct (map fst invt) \<longrightarrow> distinct (map fst inv2) \<longrightarrow>
           active = active_of invt \<longrightarrow> active = active_of inv2 \<longrightarrow>
           collect_candidates tbl active = Inr cands \<longrightarrow> set cs \<subseteq> set cands \<longrightarrow>
           pure_loop cfg n tbl invt active depth cs best
             = pure_loop cfg n tbl inv2 active depth cs best"
proof (induction cfg n tbl invt depth and cfg n tbl invt active depth cs best
    rule: pure_node_pure_loop.induct)
  case (1 cfg n tbl invt depth)
  show ?case
  proof (intro allI impI)
    fix inv2
    assume wf: "index_wf cfg tbl" and d: "distinct (map fst invt)"
      and d2: "distinct (map fst inv2)" and a: "active_of invt = active_of inv2"
    show "pure_node cfg n tbl invt depth = pure_node cfg n tbl inv2 depth"
    proof (cases "active_of invt = [] \<or> n < depth")
      case True
      with a show ?thesis by (auto simp: pure_node.simps Let_def)
    next
      case False
      then have ne: "active_of invt \<noteq> []" and b: "\<not> n < depth" by auto
      show ?thesis
      proof (cases "collect_candidates tbl (active_of invt)")
        case (Inl e)
        with ne b a show ?thesis by (simp add: pure_node.simps)
      next
        case (Inr cands)
        have "pure_loop cfg n tbl invt (active_of invt) depth (sort_key fst cands) (PInf, None)
            = pure_loop cfg n tbl inv2 (active_of invt) depth (sort_key fst cands) (PInf, None)"
          by (rule "1.IH" [OF refl ne b Inr, rule_format, OF wf d d2 refl a Inr]) simp
        with ne b a Inr show ?thesis by (simp add: pure_node.simps)
      qed
    qed
  qed
next
  case (2 cfg n tbl invt active depth best)
  show ?case by simp
next
  case (3 cfg n tbl invt active depth cost tmpl nb rest b bp)
  show ?case
  proof (intro allI impI)
    fix inv2 cands
    assume wf: "index_wf cfg tbl" and d: "distinct (map fst invt)"
      and d2: "distinct (map fst inv2)"
      and act: "active = active_of invt" and act2: "active = active_of inv2"
      and cc: "collect_candidates tbl active = Inr cands"
      and sub: "set ((cost, tmpl, nb) # rest) \<subseteq> set cands"
    from sub have mem: "(cost, tmpl, nb) \<in> set cands" and sub': "set rest \<subseteq> set cands" by auto
    from cc act have cc': "collect_candidates tbl (active_of invt) = Inr cands" by simp
    from index_wf_template [OF wf cc' mem] obtain key where
      k: "template_wf cfg key tmpl" "key \<subseteq> set (map fst (active_of invt))"
      by blast
    from act act2 have a: "active_of invt = active_of inv2" by simp
    note u = update_inventory_same_active [OF d d2 a k, of nb]
    show "pure_loop cfg n tbl invt active depth ((cost, tmpl, nb) # rest) (b, bp)
        = pure_loop cfg n tbl inv2 active depth ((cost, tmpl, nb) # rest) (b, bp)"
    proof (cases "real_ge cost b")
      case True
      then show ?thesis by (simp add: pure_loop.simps)
    next
      case ng: False
      show ?thesis
      proof (cases "update_inventory invt active tmpl nb")
        case (Inl e)
        with u act have "update_inventory inv2 active tmpl nb = Inl e" by simp
        with ng Inl show ?thesis by (simp add: pure_loop.simps)
      next
        case (Inr new_inv)
        with u act obtain n2 where n2: "update_inventory inv2 active tmpl nb = Inr n2"
          and an: "active_of new_inv = active_of n2" by auto
        from Inr act have upd: "update_inventory invt (active_of invt) tmpl nb = Inr new_inv"
          by simp
        from n2 act2 have upd2: "update_inventory inv2 (active_of inv2) tmpl nb = Inr n2"
          by simp
        from cc act2 have cc2: "collect_candidates tbl (active_of inv2) = Inr cands" by simp
        from candidate_expansion(1) [OF wf d cc' mem upd] have dn: "distinct (map fst new_inv)" .
        from candidate_expansion(1) [OF wf d2 cc2 mem upd2] have dn2: "distinct (map fst n2)" .
        have eq: "pure_node cfg n tbl new_inv (depth + 1) = pure_node cfg n tbl n2 (depth + 1)"
          by (rule "3.IH"(1) [OF ng Inr, rule_format, OF wf dn dn2 an])
        show ?thesis
        proof (cases "pure_node cfg n tbl new_inv (depth + 1)")
          case (Inl e)
          with ng Inr n2 eq show ?thesis by (simp add: pure_loop.simps)
        next
          case nr: (Inr res)
          obtain rc rps where res: "res = (rc, rps)" by (cases res)
          show ?thesis
          proof (cases "xless (xadd cost rc) b")
            case better: True
            show ?thesis
            proof (cases "make_phase cfg tmpl nb")
              case (Inl e)
              with ng Inr n2 eq nr res better show ?thesis by (simp add: pure_loop.simps)
            next
              case mp: (Inr phase)
              have "pure_loop cfg n tbl invt active depth rest (xadd cost rc, Some (phase # rps))
                  = pure_loop cfg n tbl inv2 active depth rest (xadd cost rc, Some (phase # rps))"
                by (rule "3.IH"(2) [OF ng Inr nr [unfolded res] refl refl better mp, rule_format,
                      OF wf d d2 act act2 cc sub'])
              with ng Inr n2 eq nr res better mp show ?thesis by (simp add: pure_loop.simps)
            qed
          next
            case worse: False
            have "pure_loop cfg n tbl invt active depth rest (b, bp)
                = pure_loop cfg n tbl inv2 active depth rest (b, bp)"
              by (rule "3.IH"(3) [OF ng Inr nr [unfolded res] refl refl worse, rule_format,
                    OF wf d d2 act act2 cc sub'])
            with ng Inr n2 eq nr res worse show ?thesis by (simp add: pure_loop.simps)
          qed
        qed
      qed
    qed
  qed
qed

subsection \<open>When the rounded memo key merges no two states\<close>

text \<open>
  \<open>rounding_exact\<close>: no two states reachable from the inventory \<open>inv0\<close> with different active
  parts have the same rounded memo key. \<open>memo_sound\<close>: every entry of the memo table is keyed
  by a reachable non-terminal state, and is the pair that the memo-free search returns from
  every reachable non-terminal state with that key.
\<close>

definition rounding_exact :: "templates_index \<Rightarrow> nat \<Rightarrow> inventory \<Rightarrow> bool" where
  "rounding_exact tbl n inv0 \<longleftrightarrow>
     (\<forall>inv1 d1 inv2 d2. reachable tbl n inv0 inv1 d1 \<longrightarrow> reachable tbl n inv0 inv2 d2 \<longrightarrow>
        memo_key_of (active_of inv1) = memo_key_of (active_of inv2) \<longrightarrow>
        active_of inv1 = active_of inv2)"

definition memo_sound ::
  "SystemConfig \<Rightarrow> nat \<Rightarrow> templates_index \<Rightarrow> inventory \<Rightarrow> memo_table \<Rightarrow> bool" where
  "memo_sound cfg n tbl inv0 memo \<longleftrightarrow>
     (\<forall>k v. memo k = Some v \<longrightarrow>
        (\<exists>invt d. reachable tbl n inv0 invt d \<and> active_of invt \<noteq> []
            \<and> memo_key_of (active_of invt) = k)
        \<and> (\<forall>invt d. reachable tbl n inv0 invt d \<longrightarrow> active_of invt \<noteq> [] \<longrightarrow>
              memo_key_of (active_of invt) = k \<longrightarrow> pure_node cfg n tbl invt d = Inr v))"

lemma memo_sound_empty: "memo_sound cfg n tbl inv0 Map.empty"
  by (simp add: memo_sound_def)

lemma memo_sound_store:
  assumes wf: "index_wf cfg tbl" and d0: "distinct (map fst inv0)"
    and ln: "length (active_of inv0) \<le> n"
    and ex: "rounding_exact tbl n inv0"
    and r: "reachable tbl n inv0 invt depth" and ne: "active_of invt \<noteq> []"
    and p: "pure_node cfg n tbl invt depth = Inr res"
    and m: "memo_sound cfg n tbl inv0 memo"
  shows "memo_sound cfg n tbl inv0 (memo(memo_key_of (active_of invt) \<mapsto> res))"
proof -
  from reachable_invariant [OF wf d0 r]
  have di: "distinct (map fst invt)"
    and li: "length (active_of invt) + depth \<le> length (active_of inv0)" by simp_all
  have same: "pure_node cfg n tbl inv' d' = Inr res"
    if r': "reachable tbl n inv0 inv' d'"
      and k': "memo_key_of (active_of inv') = memo_key_of (active_of invt)" for inv' d'
  proof -
    from reachable_invariant [OF wf d0 r']
    have di': "distinct (map fst inv')"
      and li': "length (active_of inv') + d' \<le> length (active_of inv0)" by simp_all
    from ex r' r k' have a: "active_of inv' = active_of invt"
      unfolding rounding_exact_def by blast
    from li' ln have l1: "length (active_of inv') + d' \<le> n" by simp
    from li ln a have l2: "length (active_of inv') + depth \<le> n" by simp
    have "pure_node cfg n tbl inv' d' = pure_node cfg n tbl inv' depth"
      by (rule pure_depth_independent(1) [rule_format, OF wf di' l1 l2])
    also have "\<dots> = pure_node cfg n tbl invt depth"
      by (rule pure_active_only(1) [rule_format, OF wf di' di a])
    finally show ?thesis using p by simp
  qed
  show ?thesis
    unfolding memo_sound_def
  proof (intro allI impI)
    fix k v
    assume kv: "(memo(memo_key_of (active_of invt) \<mapsto> res)) k = Some v"
    show "(\<exists>invt d. reachable tbl n inv0 invt d \<and> active_of invt \<noteq> []
            \<and> memo_key_of (active_of invt) = k)
        \<and> (\<forall>invt d. reachable tbl n inv0 invt d \<longrightarrow> active_of invt \<noteq> [] \<longrightarrow>
              memo_key_of (active_of invt) = k \<longrightarrow> pure_node cfg n tbl invt d = Inr v)"
    proof (cases "k = memo_key_of (active_of invt)")
      case True
      with kv have "v = res" by simp
      with True r ne same show ?thesis by blast
    next
      case False
      with kv have "memo k = Some v" by simp
      with m show ?thesis unfolding memo_sound_def by blast
    qed
  qed
qed

lemma search_exact:
  shows "\<forall>r memo' stats'. search_node cfg n tbl invt depth st = Inr (r, memo', stats') \<longrightarrow>
           index_wf cfg tbl \<longrightarrow> distinct (map fst inv0) \<longrightarrow> length (active_of inv0) \<le> n \<longrightarrow>
           rounding_exact tbl n inv0 \<longrightarrow> reachable tbl n inv0 invt depth \<longrightarrow>
           memo_sound cfg n tbl inv0 (fst st) \<longrightarrow>
           memo_sound cfg n tbl inv0 memo' \<and> pure_node cfg n tbl invt depth = Inr r"
    and "\<forall>best' memo' stats' cands. search_loop cfg n tbl invt active depth cs best st = Inr (best', memo', stats') \<longrightarrow>
           index_wf cfg tbl \<longrightarrow> distinct (map fst inv0) \<longrightarrow> length (active_of inv0) \<le> n \<longrightarrow>
           rounding_exact tbl n inv0 \<longrightarrow> reachable tbl n inv0 invt depth \<longrightarrow>
           active = active_of invt \<longrightarrow> active \<noteq> [] \<longrightarrow> \<not> n < depth \<longrightarrow>
           collect_candidates tbl active = Inr cands \<longrightarrow> set cs \<subseteq> set cands \<longrightarrow>
           memo_sound cfg n tbl inv0 (fst st) \<longrightarrow>
           memo_sound cfg n tbl inv0 memo'
           \<and> pure_loop cfg n tbl invt active depth cs best = Inr best'"
proof (induction cfg n tbl invt depth st and cfg n tbl invt active depth cs best st
    rule: search_node_search_loop.induct)
  case (1 cfg n tbl invt depth memo stats)
  show ?case
  proof (intro allI impI)
    fix r memo' stats'
    assume run: "search_node cfg n tbl invt depth (memo, stats) = Inr (r, memo', stats')"
      and wf: "index_wf cfg tbl" and d0: "distinct (map fst inv0)"
      and ln: "length (active_of inv0) \<le> n" and ex: "rounding_exact tbl n inv0"
      and re: "reachable tbl n inv0 invt depth"
      and m: "memo_sound cfg n tbl inv0 (fst (memo, stats))"
    from run show "memo_sound cfg n tbl inv0 memo' \<and> pure_node cfg n tbl invt depth = Inr r"
    proof (cases rule: search_node_cases)
      case terminal
      with m show ?thesis by (simp add: pure_node.simps)
    next
      case bound
      with m show ?thesis by (simp add: pure_node.simps)
    next
      case hit
      from m have m': "memo_sound cfg n tbl inv0 memo" by simp
      from m' [unfolded memo_sound_def, rule_format, OF hit(3)]
      have "\<forall>invt d. reachable tbl n inv0 invt d \<longrightarrow> active_of invt \<noteq> [] \<longrightarrow>
              memo_key_of (active_of invt) = memo_key_of (active_of invt') \<longrightarrow>
              pure_node cfg n tbl invt d = Inr r" if "invt' = invt" for invt'
        using that by simp
      from this [OF refl, rule_format, OF re hit(1) refl]
      have "pure_node cfg n tbl invt depth = Inr r" .
      with m hit show ?thesis by simp
    next
      case (fresh cands b bp m1)
      from fresh(2) have nb: "\<not> n < depth" by simp
      have "memo_sound cfg n tbl inv0 m1
          \<and> pure_loop cfg n tbl invt (active_of invt) depth (sort_key fst cands) (PInf, None)
              = Inr (b, bp)"
        by (rule "1.IH" [OF refl fresh(1) nb refl fresh(3) fresh(4), rule_format,
              OF fresh(5) wf d0 ln ex re refl fresh(1) nb fresh(4) _ m]) simp
      then have m1: "memo_sound cfg n tbl inv0 m1"
        and pl: "pure_loop cfg n tbl invt (active_of invt) depth (sort_key fst cands) (PInf, None)
              = Inr (b, bp)" by simp_all
      from pl fresh(1,4,6) nb have p: "pure_node cfg n tbl invt depth = Inr r"
        by (simp add: pure_node.simps)
      from memo_sound_store [OF wf d0 ln ex re fresh(1) p m1] fresh(7) p
      show ?thesis by simp
    qed
  qed
next
  case (2 cfg n tbl invt active depth best st)
  then show ?case by simp
next
  case (3 cfg n tbl invt active depth cost tmpl nb rest b bp memo stats)
  show ?case
  proof (intro allI impI)
    fix best' memo' stats' cands
    assume run: "search_loop cfg n tbl invt active depth ((cost, tmpl, nb) # rest) (b, bp) (memo, stats)
                   = Inr (best', memo', stats')"
      and wf: "index_wf cfg tbl" and d0: "distinct (map fst inv0)"
      and ln: "length (active_of inv0) \<le> n" and ex: "rounding_exact tbl n inv0"
      and re: "reachable tbl n inv0 invt depth"
      and act: "active = active_of invt" and ne: "active \<noteq> []" and nd: "\<not> n < depth"
      and cc: "collect_candidates tbl active = Inr cands"
      and sub: "set ((cost, tmpl, nb) # rest) \<subseteq> set cands"
      and m: "memo_sound cfg n tbl inv0 (fst (memo, stats))"
    from sub have mem: "(cost, tmpl, nb) \<in> set cands" and sub': "set rest \<subseteq> set cands" by auto
    from cc act have cc': "collect_candidates tbl (active_of invt) = Inr cands" by simp
    from ne act have ne': "active_of invt \<noteq> []" by simp
    from run show "memo_sound cfg n tbl inv0 memo'
        \<and> pure_loop cfg n tbl invt active depth ((cost, tmpl, nb) # rest) (b, bp) = Inr best'"
    proof (cases rule: search_loop_cons_cases)
      case pruned
      with m show ?thesis by (simp add: pure_loop.simps)
    next
      case (better new_inv rc rps m1 s1 phase)
      from better(2) act have upd: "update_inventory invt (active_of invt) tmpl nb = Inr new_inv"
        by simp
      have rn: "reachable tbl n inv0 new_inv (depth + 1)"
        by (rule reachable.step [OF re ne' nd cc' mem upd])
      have "memo_sound cfg n tbl inv0 m1
          \<and> pure_node cfg n tbl new_inv (depth + 1) = Inr (rc, rps)"
        by (rule "3.IH"(1) [OF better(1) better(2), rule_format,
              OF better(3) wf d0 ln ex rn m])
      then have m1: "memo_sound cfg n tbl inv0 (fst (m1, s1))"
        and p1: "pure_node cfg n tbl new_inv (depth + 1) = Inr (rc, rps)" by simp_all
      have "memo_sound cfg n tbl inv0 memo'
          \<and> pure_loop cfg n tbl invt active depth rest (xadd cost rc, Some (phase # rps))
              = Inr best'"
        by (rule "3.IH"(2) [OF better(1) better(2) better(3) refl refl refl refl better(4)
              better(5), rule_format, OF better(6) wf d0 ln ex re act ne nd cc sub' m1])
      with better p1 show ?thesis by (simp add: pure_loop.simps)
    next
      case (worse new_inv rc rps m1 s1)
      from worse(2) act have upd: "update_inventory invt (active_of invt) tmpl nb = Inr new_inv"
        by simp
      have rn: "reachable tbl n inv0 new_inv (depth + 1)"
        by (rule reachable.step [OF re ne' nd cc' mem upd])
      have "memo_sound cfg n tbl inv0 m1
          \<and> pure_node cfg n tbl new_inv (depth + 1) = Inr (rc, rps)"
        by (rule "3.IH"(1) [OF worse(1) worse(2), rule_format,
              OF worse(3) wf d0 ln ex rn m])
      then have m1: "memo_sound cfg n tbl inv0 (fst (m1, s1))"
        and p1: "pure_node cfg n tbl new_inv (depth + 1) = Inr (rc, rps)" by simp_all
      have "memo_sound cfg n tbl inv0 memo'
          \<and> pure_loop cfg n tbl invt active depth rest (b, bp) = Inr best'"
        by (rule "3.IH"(3) [OF worse(1) worse(2) worse(3) refl refl refl refl worse(4),
              rule_format, OF worse(5) wf d0 ln ex re act ne nd cc sub' m1])
      with worse p1 show ?thesis by (simp add: pure_loop.simps)
    qed
  qed
qed

subsection \<open>Whole litres and unit ratios round exactly\<close>

definition unit_ratios :: "templates_index \<Rightarrow> bool" where
  "unit_ratios tbl \<longleftrightarrow>
     list_all (\<lambda>(key, ts). list_all (\<lambda>t. list_all (\<lambda>r. r = 1) (ratios t)) ts) tbl"

definition whole_litres :: "inventory \<Rightarrow> bool" where
  "whole_litres invt \<longleftrightarrow> list_all (\<lambda>(sid, q). q \<in> \<int>) invt"

lemma py_round_whole: "q \<in> \<int> \<Longrightarrow> of_int (py_round q) = q"
  by (auto simp: py_round_def Let_def elim!: Ints_cases)

lemma whole_step:
  assumes wf: "index_wf cfg tbl" and u: "unit_ratios tbl"
    and d: "distinct (map fst invt)" and w: "whole_litres invt"
    and cc: "collect_candidates tbl (active_of invt) = Inr cands"
    and mem: "(cost, tmpl, nb) \<in> set cands"
    and upd: "update_inventory invt (active_of invt) tmpl nb = Inr new_inv"
  shows "whole_litres new_inv" and "map fst new_inv = map fst invt"
proof -
  from collect_candidates_mem [OF cc mem] obtain key ts where
    k: "(key, ts) \<in> set tbl" "key \<subseteq> set (map fst (active_of invt))" "tmpl \<in> set ts"
      "num_batches_of (active_of invt) tmpl = Inr nb"
    by blast
  from wf k(1,3) have twf: "template_wf cfg key tmpl"
    by (auto simp: index_wf_def list_all_iff)
  from u k(1,3) have ones: "\<forall>r \<in> set (ratios tmpl). r = 1"
    by (auto simp: unit_ratios_def list_all_iff)
  from num_batches_of_min(2) [OF k(4)] obtain sid r q where
    z: "(sid, r) \<in> set (zip (stream_ids tmpl) (ratios tmpl))"
    and q: "map_of (active_of invt) sid = Some q" "nb = q / of_int r"
    by blast
  from z have "r \<in> set (ratios tmpl)" by (rule set_zip_rightD)
  with ones have "r = 1" by blast
  with q have nbq: "nb = q" by simp
  from q(1) have "(sid, q) \<in> set (active_of invt)" by (rule map_of_SomeD)
  then have "(sid, q) \<in> set invt" by (simp add: active_of_def)
  with w have "q \<in> \<int>" by (auto simp: whole_litres_def list_all_iff)
  with nbq have nbi: "nb \<in> \<int>" by simp
  note eq = update_inventory_map(1) [OF d twf k(2) upd]
  show "map fst new_inv = map fst invt"
    unfolding eq by (simp add: consume_entry_def case_prod_beta comp_def)
  show "whole_litres new_inv"
    unfolding eq whole_litres_def list_all_iff
  proof
    fix x assume "x \<in> set (map (consume_entry tmpl nb) invt)"
    then obtain sid' q' where i: "(sid', q') \<in> set invt"
      and x: "x = consume_entry tmpl nb (sid', q')" by auto
    from i w have "q' \<in> \<int>" by (auto simp: whole_litres_def list_all_iff)
    with nbi x show "case x of (sid, q) \<Rightarrow> q \<in> \<int>"
      by (auto simp: consume_entry_def split: option.splits)
  qed
qed

lemma reachable_whole:
  assumes wf: "index_wf cfg tbl" and u: "unit_ratios tbl"
    and d0: "distinct (map fst inv0)" and w0: "whole_litres inv0"
    and r: "reachable tbl n inv0 invt depth"
  shows "whole_litres invt \<and> map fst invt = map fst inv0"
  using r
proof (induction rule: reachable.induct)
  case root
  from w0 show ?case by simp
next
  case (step invt d cands cost tmpl nb new_inv)
  from reachable_invariant [OF wf d0 step.hyps(1)] have di: "distinct (map fst invt)" by simp
  from step.IH have wi: "whole_litres invt" and fi: "map fst invt = map fst inv0" by simp_all
  from whole_step [OF wf u di wi step.hyps(4,5,6)] fi show ?case by simp
qed

lemma filter_eq_of_set_eq:
  assumes "distinct (map fst xs)" and "map fst xs = map fst ys"
    and "set (filter P xs) = set (filter P ys)"
  shows "filter P xs = filter P ys"
proof -
  from assms(2) have "length xs = length ys" by (rule map_eq_imp_length_eq)
  then show ?thesis using assms
  proof (induction xs ys rule: list_induct2)
    case Nil
    then show ?case by simp
  next
    case (Cons x xs y ys)
    from Cons.prems(2) have k: "fst x = fst y" and f: "map fst xs = map fst ys" by simp_all
    from Cons.prems(1) have dx: "distinct (map fst xs)" and nx: "fst x \<notin> fst ` set xs" by auto
    from nx f k have ny: "fst y \<notin> fst ` set ys" by (metis list.set_map)
    from nx have xn: "x \<notin> set xs" by force
    from ny have yn: "y \<notin> set ys" by force
    from nx k f have yx: "y \<notin> set xs" by (metis image_eqI list.set_map)
    from ny k f have xy: "x \<notin> set ys" by (metis image_eqI list.set_map)
    have px: "P x \<longleftrightarrow> P y \<and> x = y"
    proof
      assume "P x"
      then have "x \<in> set (filter P (x # xs))" by simp
      with Cons.prems(3) have "x \<in> set (filter P (y # ys))" by simp
      with xy show "P y \<and> x = y" by (auto split: if_splits)
    next
      assume a: "P y \<and> x = y"
      then show "P x" by auto
    qed
    have py: "P y \<longleftrightarrow> P x \<and> x = y"
    proof
      assume "P y"
      then have "y \<in> set (filter P (y # ys))" by simp
      with Cons.prems(3) have "y \<in> set (filter P (x # xs))" by simp
      with yx show "P x \<and> x = y" by (auto split: if_splits)
    next
      assume "P x \<and> x = y"
      then show "P y" by auto
    qed
    have "set (filter P xs) = set (filter P ys)"
    proof (cases "P x")
      case True
      with px have e: "x = y" "P y" by simp_all
      from Cons.prems(3) True e have "insert x (set (filter P xs)) = insert x (set (filter P ys))"
        by simp
      moreover from xn have "x \<notin> set (filter P xs)" by simp
      moreover from xy have "x \<notin> set (filter P ys)" by simp
      ultimately show ?thesis by (metis insert_ident)
    next
      case False
      with py have "\<not> P y" by simp
      with False Cons.prems(3) show ?thesis by simp
    qed
    from Cons.IH [OF dx f this] px py show ?case by auto
  qed
qed

lemma whole_key_exact:
  assumes w1: "whole_litres inv1" and w2: "whole_litres inv2"
    and d1: "distinct (map fst inv1)" and f: "map fst inv1 = map fst inv2"
    and k: "memo_key_of (active_of inv1) = memo_key_of (active_of inv2)"
  shows "active_of inv1 = active_of inv2"
proof -
  have key: "memo_key_of a = (\<lambda>(sid, q). (sid, py_round q)) ` set a" for a
    by (simp add: memo_key_of_def)
  have sub: "set (active_of i1) \<subseteq> set (active_of i2)"
    if "whole_litres i1" "whole_litres i2"
      "memo_key_of (active_of i1) = memo_key_of (active_of i2)" for i1 i2
  proof
    fix x assume x: "x \<in> set (active_of i1)"
    obtain sid q where xx: "x = (sid, q)" by (cases x)
    from x xx have "(sid, py_round q) \<in> memo_key_of (active_of i1)"
      unfolding key by force
    with that(3) have "(sid, py_round q) \<in> memo_key_of (active_of i2)" by simp
    then obtain q' where y: "(sid, q') \<in> set (active_of i2)" and r: "py_round q' = py_round q"
      unfolding key by auto
    from x xx have "(sid, q) \<in> set i1" by (simp add: active_of_def)
    with that(1) have "q \<in> \<int>" by (auto simp: whole_litres_def list_all_iff)
    moreover from y have "(sid, q') \<in> set i2" by (simp add: active_of_def)
    with that(2) have "q' \<in> \<int>" by (auto simp: whole_litres_def list_all_iff)
    ultimately have "q' = q" using r py_round_whole by metis
    with y xx show "x \<in> set (active_of i2)" by simp
  qed
  from sub [OF w1 w2 k] sub [OF w2 w1 k [symmetric]]
  have "set (active_of inv1) = set (active_of inv2)" by auto
  then show ?thesis
    unfolding active_of_def by (intro filter_eq_of_set_eq [OF d1 f])
qed

lemma whole_litres_exact:
  assumes wf: "index_wf cfg tbl" and u: "unit_ratios tbl"
    and d0: "distinct (map fst inv0)" and w0: "whole_litres inv0"
  shows "rounding_exact tbl n inv0"
  unfolding rounding_exact_def
proof (intro allI impI)
  fix inv1 d1 inv2 d2
  assume r1: "reachable tbl n inv0 inv1 d1" and r2: "reachable tbl n inv0 inv2 d2"
    and k: "memo_key_of (active_of inv1) = memo_key_of (active_of inv2)"
  from reachable_whole [OF wf u d0 w0 r1] reachable_whole [OF wf u d0 w0 r2]
  have w: "whole_litres inv1" "whole_litres inv2" and f: "map fst inv1 = map fst inv2"
    by simp_all
  from reachable_invariant [OF wf d0 r1] have "distinct (map fst inv1)" by simp
  from whole_key_exact [OF w this f k] show "active_of inv1 = active_of inv2" .
qed

lemma search_exact_root:
  assumes rc: "ratio_cache_of (length strs) (ratio_sum_max cfg) = Inr rc"
    and pre: "precompute_templates strs cfg rc = Inr (tbl, a, b, c)"
    and ex: "rounding_exact tbl (length strs) (initial_inventory strs)"
    and s: "search strs cfg = Inr (cst, ps, stats)"
  shows "pure_node cfg (length strs) tbl (initial_inventory strs) 0 = Inr (cst, ps)"
proof -
  from s obtain memo' where
    "search_with_memo strs cfg = Inr ((cst, ps), memo', stats)"
    by (auto simp: search_def split: sum.splits prod.splits)
  with rc pre have run: "search_node cfg (length strs) tbl (initial_inventory strs) 0
      (Map.empty, initial_stats a b c) = Inr ((cst, ps), memo', stats)"
    by (simp add: search_with_memo_unfold)
  have wf: "index_wf cfg tbl" by (rule ratio_cache_of_index_wf [OF rc pre])
  have d0: "distinct (map fst (initial_inventory strs))"
    by (simp add: initial_inventory_def distinct_dict_of)
  have ln: "length (active_of (initial_inventory strs)) \<le> length strs"
    using length_active_of_le [of "initial_inventory strs"] length_initial_inventory [of strs]
    by simp
  have m: "memo_sound cfg (length strs) tbl (initial_inventory strs)
             (fst (Map.empty, initial_stats a b c))"
    by (simp add: memo_sound_empty)
  from search_exact(1) [rule_format, OF run wf d0 ln ex reachable.root m]
  show ?thesis by simp
qed

subsection \<open>Whole-litre streams, and a plant that is paid to run\<close>

definition drum_X :: WasteStream where
  "drum_X = \<lparr> stream_id = ''X'', quantity_L = 10, btu_per_lb = 4400, pH = 7,
                f_ppm = 0, solid_pct = 0, salt_ppm = 0, moisture_pct = 0 \<rparr>"

definition drum_Y :: WasteStream where
  "drum_Y = \<lparr> stream_id = ''Y'', quantity_L = 20, btu_per_lb = 0, pH = 7,
                f_ppm = 0, solid_pct = 0, salt_ppm = 0, moisture_pct = 0 \<rparr>"

definition drum_Z :: WasteStream where
  "drum_Z = \<lparr> stream_id = ''Z'', quantity_L = 30, btu_per_lb = 4400, pH = 7,
                f_ppm = 0, solid_pct = 0, salt_ppm = 0, moisture_pct = 0 \<rparr>"

definition drum_W :: WasteStream where
  "drum_W = \<lparr> stream_id = ''W'', quantity_L = 3, btu_per_lb = 0, pH = 7,
                f_ppm = 0, solid_pct = 0, salt_ppm = 0, moisture_pct = 0 \<rparr>"

text \<open>The default configuration with \<open>ratio_sum_max = 2\<close> and a negative labour rate.\<close>

definition config_neg :: SystemConfig where
  "config_neg = default_config\<lparr>ratio_sum_max := 2, cost_labor_per_hr := - 200\<rparr>"

text \<open>
  A template that needs no water, diesel or NaOH, at the fixed cost \<open>f\<close> per litre; the
  template of a stream of 0 BTU alone, which needs diesel; a phase of \<open>q\<close> litres of a
  template without additives under the default rates.
\<close>

definition template_plain :: "string list \<Rightarrow> int list \<Rightarrow> real \<Rightarrow> real \<Rightarrow> PhaseTemplate" where
  "template_plain ids rs btu f =
     \<lparr>stream_ids = ids, ratios = rs,
      blend = \<lparr>bp_btu_per_lb = btu, bp_pH = 7, bp_f_ppm = 0, bp_solid_pct = 0, bp_salt_ppm = 0\<rparr>,
      t_r_water = 0, t_r_diesel = 0, t_r_naoh = 0, t_r_ext = 0,
      t_W = 11, cost_per_batch = of_int (sum_list rs) * f, sum_ratios = sum_list rs\<rparr>"

definition template_cold :: "string \<Rightarrow> real \<Rightarrow> PhaseTemplate" where
  "template_cold sid cpb =
     \<lparr>stream_ids = [sid], ratios = [1],
      blend = \<lparr>bp_btu_per_lb = 0, bp_pH = 7, bp_f_ppm = 0, bp_solid_pct = 0, bp_salt_ppm = 0\<rparr>,
      t_r_water = 0, t_r_diesel = 2200 / 16287, t_r_naoh = 0, t_r_ext = 2200 / 16287,
      t_W = 179157 / 18487, cost_per_batch = cpb, sum_ratios = 1\<rparr>"

definition phase_plain :: "(string \<times> int) list \<Rightarrow> real \<Rightarrow> real \<Rightarrow> PhaseResult" where
  "phase_plain rs btu q =
     \<lparr>streams = rs,
      blend_props = \<lparr>bp_btu_per_lb = btu, bp_pH = 7, bp_f_ppm = 0, bp_solid_pct = 0,
                      bp_salt_ppm = 0\<rparr>,
      r_water = 0, r_diesel = 0, r_naoh = 0, r_ext = 0, W = 11,
      runtime_min = q / 11, Q_phase = q, cost_diesel = 0, cost_naoh = 0, cost_water = 0,
      cost_electricity = 4 * q / 55, cost_labor = 5 * q / 33, cost_total = 37 * q / 165\<rparr>"

definition index_XYZ :: templates_index where
  "index_XYZ =
     [({''X''}, [template_plain [''X''] [1] 4400 (37 / 165)]),
      ({''Y''}, [template_cold ''Y'' (1047019 / 2687355)]),
      ({''Z''}, [template_plain [''Z''] [1] 4400 (37 / 165)]),
      ({''X'', ''Y''}, [template_plain [''X'', ''Y''] [1, 1] 2200 (37 / 165)]),
      ({''X'', ''Z''}, [template_plain [''X'', ''Z''] [1, 1] 4400 (37 / 165)]),
      ({''Y'', ''Z''}, [template_plain [''Y'', ''Z''] [1, 1] 2200 (37 / 165)])]"

definition index_WX :: templates_index where
  "index_WX =
     [({''W''}, [template_cold ''W'' (- (339506 / 2687355))]),
      ({''X''}, [template_plain [''X''] [1] 4400 (- (38 / 165))]),
      ({''W'', ''X''}, [template_plain [''W'', ''X''] [1, 1] 2200 (- (38 / 165))])]"

definition schedule_XYZ :: "PhaseResult list" where
  "schedule_XYZ =
     [phase_plain [(''X'', 1)] 4400 10, phase_plain [(''Y'', 1), (''Z'', 1)] 2200 40,
      phase_plain [(''Z'', 1)] 4400 10]"

lemmas eval_drum = config_2_def config_neg_def drum_X_def drum_Y_def drum_Z_def drum_W_def
  blend_pH_const doubleton_eq_iff upto.simps index_XYZ_def index_WX_def template_plain_def
  template_cold_def phase_plain_def schedule_XYZ_def

lemma ratio_cache_of_3_2: "ratio_cache_of 3 2 = Inr [(1, [[1]]), (2, [[1, 1]]), (3, [])]"
  by (simp add: ratio_cache_of_def generate_ratios_def reduce_gcd_def upto.simps eval_nat_numeral)

lemma precompute_index_XYZ:
  "precompute_templates [drum_X, drum_Y, drum_Z] config_2 [(1, [[1]]), (2, [[1, 1]]), (3, [])]
     = Inr (index_XYZ, 6, 0, 6)"
  by (simp add: eval_defs eval_drum)

lemma search_XYZ:
  "search [drum_X, drum_Y, drum_Z] config_2
     = Inr (Fin (148 / 11), schedule_XYZ,
            \<lparr>evaluated = 6, pruned_infeasible = 0, templates_kept = 6, pruned_bound = 1,
              memo_hits = 10\<rparr>)"
  by (simp add: eval_defs eval_drum)

lemma initial_inventory_XYZ:
  "initial_inventory [drum_X, drum_Y, drum_Z] = [(''X'', 10), (''Y'', 20), (''Z'', 30)]"
  by (simp add: initial_inventory_def dict_of_def eval_drum)

lemma rc_XYZ:
  "ratio_cache_of (length [drum_X, drum_Y, drum_Z]) (ratio_sum_max config_2)
     = Inr [(1, [[1]]), (2, [[1, 1]]), (3, [])]"
proof -
  have l: "length [drum_X, drum_Y, drum_Z] = 3" by simp
  have r: "ratio_sum_max config_2 = 2" by (simp add: config_2_def)
  show ?thesis unfolding l r by (rule ratio_cache_of_3_2)
qed

lemma index_XYZ_wf: "index_wf config_2 index_XYZ"
  by (rule ratio_cache_of_index_wf [OF rc_XYZ precompute_index_XYZ])

lemma index_XYZ_nonneg: "index_nonneg index_XYZ"
  by (simp add: index_nonneg_def eval_drum)

lemma rounding_exact_XYZ:
  "rounding_exact index_XYZ (length [drum_X, drum_Y, drum_Z])
     (initial_inventory [drum_X, drum_Y, drum_Z])"
proof (rule whole_litres_exact [OF index_XYZ_wf])
  show "unit_ratios index_XYZ" by (simp add: unit_ratios_def eval_drum)
  show "distinct (map fst (initial_inventory [drum_X, drum_Y, drum_Z]))"
    by (simp add: initial_inventory_XYZ)
  show "whole_litres (initial_inventory [drum_X, drum_Y, drum_Z])"
    by (simp add: initial_inventory_XYZ whole_litres_def)
qed

lemma precompute_index_WX:
  "precompute_templates [drum_W, drum_X] config_neg [(1, [[1]]), (2, [[1, 1]])]
     = Inr (index_WX, 3, 0, 3)"
  by (simp add: eval_defs eval_drum)

lemma search_WX:
  "map_sum id (\<lambda>r. (fst r, memo_hits (snd (snd r)))) (search [drum_W, drum_X] config_neg)
     = Inr (Fin (- (800842 / 298595)), 0)"
  by (simp add: eval_defs eval_drum)

lemma initial_inventory_WX:
  "initial_inventory [drum_W, drum_X] = [(''W'', 3), (''X'', 10)]"
  by (simp add: initial_inventory_def dict_of_def eval_drum)

lemma exhaustive_WX:
  "exhaustive_cost 2 index_WX [(''W'', 3), (''X'', 10)] 0 = Fin (- (494 / 165))"
  by (simp add: exhaustive_cost.simps eval_drum eval_defs min_def)

lemma search_node_WX:
  "map_sum id (fst \<circ> fst)
     (search_node config_neg 2 index_WX [(''W'', 3), (''X'', 10)] 0
        (Map.empty, initial_stats 3 0 3))
     = Inr (Fin (- (800842 / 298595)))"
  by (simp add: eval_defs eval_drum initial_stats_def)

text \<open>
  On \<open>A\<close> = 10.4 L and \<open>B\<close> = 0.6 L the root reaches \<open>A\<close> = 10.4 L by processing \<open>B\<close> alone and
  \<open>A\<close> = 9.8 L by the blend; both round to the key \<open>{(A, 10)}\<close>.
\<close>

lemma rounding_merges_AB:
  "\<not> rounding_exact index_AB 2 [(''A'', 104 / 10), (''B'', 6 / 10)]"
proof
  let ?inv0 = "[(''A'', 104 / 10 :: real), (''B'', 6 / 10)]"
  assume ex: "rounding_exact index_AB 2 ?inv0"
  have ne: "active_of ?inv0 \<noteq> []" by (simp add: active_of_def ACTIVE_THRESHOLD_L_def)
  have nd: "\<not> (2 :: nat) < 0" by simp
  have cc: "collect_candidates index_AB (active_of ?inv0)
      = Inr [(1924 / 825, template_A, 52 / 5), (1047019 / 4478925, template_B, 3 / 5),
             (74 / 275, template_AB, 3 / 5)]"
    by (simp add: eval_AB eval_defs)
  have u1: "update_inventory ?inv0 (active_of ?inv0) template_B (3 / 5)
      = Inr [(''A'', 52 / 5), (''B'', 0)]"
    by (simp add: eval_AB eval_defs)
  have u2: "update_inventory ?inv0 (active_of ?inv0) template_AB (3 / 5)
      = Inr [(''A'', 49 / 5), (''B'', 0)]"
    by (simp add: eval_AB eval_defs)
  have m1: "(1047019 / 4478925, template_B, 3 / 5)
      \<in> set [(1924 / 825, template_A, 52 / 5), (1047019 / 4478925, template_B, 3 / 5),
             (74 / 275, template_AB, 3 / 5)]" by simp
  have m2: "(74 / 275, template_AB, 3 / 5)
      \<in> set [(1924 / 825, template_A, 52 / 5), (1047019 / 4478925, template_B, 3 / 5),
             (74 / 275, template_AB, 3 / 5)]" by simp
  have r1: "reachable index_AB 2 ?inv0 [(''A'', 52 / 5), (''B'', 0)] (0 + 1)"
    by (rule reachable.step [OF reachable.root ne nd cc m1 u1])
  have r2: "reachable index_AB 2 ?inv0 [(''A'', 49 / 5), (''B'', 0)] (0 + 1)"
    by (rule reachable.step [OF reachable.root ne nd cc m2 u2])
  have k: "memo_key_of (active_of [(''A'', 52 / 5), (''B'', 0)])
      = memo_key_of (active_of [(''A'', 49 / 5), (''B'', 0)])"
    by (simp add: eval_defs)
  from ex r1 r2 k have "active_of [(''A'', 52 / 5 :: real), (''B'', 0)]
      = active_of [(''A'', 49 / 5), (''B'', 0)]"
    unfolding rounding_exact_def by blast
  then show False by (simp add: active_of_def ACTIVE_THRESHOLD_L_def)
qed

lemma index_WX_wf: "index_wf config_neg index_WX"
proof -
  have l: "length [drum_W, drum_X] = 2" by simp
  have r: "ratio_sum_max config_neg = 2" by (simp add: config_neg_def)
  have "ratio_cache_of (length [drum_W, drum_X]) (ratio_sum_max config_neg)
      = Inr [(1, [[1]]), (2, [[1, 1]])]"
    unfolding l r by (rule ratio_cache_of_2_2)
  from ratio_cache_of_index_wf [OF this precompute_index_WX] show ?thesis .
qed

lemma rounding_exact_WX: "rounding_exact index_WX 2 [(''W'', 3), (''X'', 10)]"
proof (rule whole_litres_exact [OF index_WX_wf])
  show "unit_ratios index_WX" by (simp add: unit_ratios_def eval_drum)
  show "distinct (map fst [(''W'', 3 :: real), (''X'', 10)])" by simp
  show "whole_litres [(''W'', 3), (''X'', 10)]" by (simp add: whole_litres_def)
qed

text \<open>
  Claim C2, as stated, fails in two ways.
  \<^item> On the streams \<open>A\<close> (10.4 L) and \<open>B\<close> (0.6 L) with \<open>ratio_sum_max = 2\<close> the root search
    returns 69651/27145 (about 2.566), while the minimum over all phase sequences of the
    retained templates is 407/165 (about 2.467), reached by blending \<open>A\<close> and \<open>B\<close> at (1, 1)
    and then processing the rest of \<open>A\<close>. The search explores solo \<open>B\<close> first and caches the
    cost of \<open>A\<close> = 10.4 L under the key \<open>(A, 10)\<close>; the state \<open>A\<close> = 9.8 L after the blend
    rounds to the same key and is charged the cached cost: the rounding is not exact.
  \<^item> On the whole-litre streams \<open>W\<close> (3 L) and \<open>X\<close> (10 L), where the rounded key merges no
    two states and no memo hit occurs, with a labour rate of \<open>-200\<close> per hour every template
    has a negative cost. The search takes \<open>X\<close> alone and then \<open>W\<close> alone, for -800842/298595
    (about -2.68), and stops at the blend because the blend's own cost is not below that;
    the blend followed by the rest of \<open>X\<close> costs -494/165 (about -2.99). The residual costs
    are negative, so the pruning rule excludes a cheaper schedule.
\<close>

theorem pruned_search_counterexample:
  "ratio_cache_of (length [stream_A, stream_B]) (ratio_sum_max config_2)
     = Inr [(1, [[1]]), (2, [[1, 1]])]
   \<and> precompute_templates [stream_A, stream_B] config_2 [(1, [[1]]), (2, [[1, 1]])]
       = Inr (index_AB, 3, 0, 3)
   \<and> map_sum id fst (search [stream_A, stream_B] config_2) = Inr (Fin (69651 / 27145))
   \<and> map_sum id (memo_hits \<circ> snd \<circ> snd) (search [stream_A, stream_B] config_2) = Inr 1
   \<and> exhaustive_cost (length [stream_A, stream_B]) index_AB
         (initial_inventory [stream_A, stream_B]) 0 = Fin (407 / 165)
   \<and> Fin (407 / 165) < Fin (69651 / 27145)
   \<and> \<not> rounding_exact index_AB (length [stream_A, stream_B])
         (initial_inventory [stream_A, stream_B])
   \<and> ratio_cache_of (length [drum_W, drum_X]) (ratio_sum_max config_neg)
       = Inr [(1, [[1]]), (2, [[1, 1]])]
   \<and> precompute_templates [drum_W, drum_X] config_neg [(1, [[1]]), (2, [[1, 1]])]
       = Inr (index_WX, 3, 0, 3)
   \<and> rounding_exact index_WX (length [drum_W, drum_X]) (initial_inventory [drum_W, drum_X])
   \<and> map_sum id fst (search [drum_W, drum_X] config_neg) = Inr (Fin (- (800842 / 298595)))
   \<and> map_sum id (memo_hits \<circ> snd \<circ> snd) (search [drum_W, drum_X] config_neg) = Inr 0
   \<and> exhaustive_cost (length [drum_W, drum_X]) index_WX
         (initial_inventory [drum_W, drum_X]) 0 = Fin (- (494 / 165))
   \<and> Fin (- (494 / 165)) < Fin (- (800842 / 298595))"
proof -
  have l: "length [stream_A, stream_B] = 2" "length [drum_W, drum_X] = 2" by simp_all
  have r: "ratio_sum_max config_2 = 2" "ratio_sum_max config_neg = 2"
    by (simp_all add: config_2_def config_neg_def)
  have o: "Fin (407 / 165) < Fin (69651 / 27145)"
    "Fin (- (494 / 165)) < Fin (- (800842 / 298595))" by simp_all
  from search_AB_cost
  have a: "map_sum id fst (search [stream_A, stream_B] config_2) = Inr (Fin (69651 / 27145))"
    "map_sum id (memo_hits \<circ> snd \<circ> snd) (search [stream_A, stream_B] config_2) = Inr 1"
    by auto
  from search_WX
  have w: "map_sum id fst (search [drum_W, drum_X] config_neg) = Inr (Fin (- (800842 / 298595)))"
    "map_sum id (memo_hits \<circ> snd \<circ> snd) (search [drum_W, drum_X] config_neg) = Inr 0"
    by (auto simp: map_sum_def split: sum.splits)
  from o a w ratio_cache_of_2_2 precompute_index_AB exhaustive_AB precompute_index_WX
    rounding_exact_WX exhaustive_WX rounding_merges_AB
  show ?thesis unfolding l r initial_inventory_AB initial_inventory_WX by blast
qed

text \<open>
  Claim C2, amended: when every retained template has a non-negative cost per batch, and no
  two states reachable from the initial inventory with different active parts have the same
  rounded memo key, the cost returned by the root search equals the minimum total cost over
  all phase sequences composable from the retained templates: stopping at the first
  candidate whose own cost is at least \<open>best_sub_cost\<close> excludes no cheaper schedule, and the
  pruned search with its memo table is extensionally equal to the exhaustive search over
  the same retained templates.
\<close>

theorem exact_search_is_exhaustive:
  assumes rc: "ratio_cache_of (length strs) (ratio_sum_max cfg) = Inr rc"
    and pre: "precompute_templates strs cfg rc = Inr (tbl, a, b, c)"
    and nn: "index_nonneg tbl"
    and ex: "rounding_exact tbl (length strs) (initial_inventory strs)"
    and s: "search strs cfg = Inr (cst, ps, stats)"
  shows "cst = exhaustive_cost (length strs) tbl (initial_inventory strs) 0"
proof -
  have wf: "index_wf cfg tbl" by (rule ratio_cache_of_index_wf [OF rc pre])
  have d: "distinct (map fst (initial_inventory strs))"
    by (simp add: initial_inventory_def distinct_dict_of)
  from search_exact_root [OF rc pre ex s] pure_is_exhaustive(1) wf nn d
  show ?thesis by blast
qed

theorem exact_search_is_exhaustive_witness:
  "ratio_cache_of (length [drum_X, drum_Y, drum_Z]) (ratio_sum_max config_2)
     = Inr [(1, [[1]]), (2, [[1, 1]]), (3, [])]
   \<and> precompute_templates [drum_X, drum_Y, drum_Z] config_2 [(1, [[1]]), (2, [[1, 1]]), (3, [])]
       = Inr (index_XYZ, 6, 0, 6)
   \<and> index_nonneg index_XYZ
   \<and> rounding_exact index_XYZ (length [drum_X, drum_Y, drum_Z])
       (initial_inventory [drum_X, drum_Y, drum_Z])
   \<and> search [drum_X, drum_Y, drum_Z] config_2
       = Inr (Fin (148 / 11), schedule_XYZ,
              \<lparr>evaluated = 6, pruned_infeasible = 0, templates_kept = 6, pruned_bound = 1,
                memo_hits = 10\<rparr>)
   \<and> exhaustive_cost (length [drum_X, drum_Y, drum_Z]) index_XYZ
       (initial_inventory [drum_X, drum_Y, drum_Z]) 0 = Fin (148 / 11)"
proof -
  from exact_search_is_exhaustive [OF rc_XYZ precompute_index_XYZ index_XYZ_nonneg
      rounding_exact_XYZ search_XYZ]
  have "exhaustive_cost (length [drum_X, drum_Y, drum_Z]) index_XYZ
       (initial_inventory [drum_X, drum_Y, drum_Z]) 0 = Fin (148 / 11)" by simp
  with rc_XYZ precompute_index_XYZ index_XYZ_nonneg rounding_exact_XYZ search_XYZ
  show ?thesis by blast
qed

text \<open>
  Claim C1, amended: for every input on which no two states reachable from the initial
  inventory with different active parts have the same rounded memo key, and on which the
  root search returns a finite total cost, subtracting each returned phase's per-stream
  consumption (ratio component times that phase's batch count) from the initial inventories
  leaves every stream's remaining quantity at or below the active threshold of 0.5 L.
\<close>

theorem exact_schedule_depletes_inventory:
  assumes rc: "ratio_cache_of (length strs) (ratio_sum_max cfg) = Inr rc"
    and pre: "precompute_templates strs cfg rc = Inr (tbl, a, b, c')"
    and ex: "rounding_exact tbl (length strs) (initial_inventory strs)"
    and s: "search strs cfg = Inr (Fin c, ps, stats)"
  shows "list_all (\<lambda>(sid, q). q \<le> ACTIVE_THRESHOLD_L)
           (remaining_after (initial_inventory strs) ps)"
proof -
  have wf: "index_wf cfg tbl" by (rule ratio_cache_of_index_wf [OF rc pre])
  have d: "distinct (map fst (initial_inventory strs))"
    by (simp add: initial_inventory_def distinct_dict_of)
  from pure_depletes(1) [rule_format, OF search_exact_root [OF rc pre ex s] wf d]
  show ?thesis .
qed

theorem exact_schedule_depletes_inventory_witness:
  "ratio_cache_of (length [drum_X, drum_Y, drum_Z]) (ratio_sum_max config_2)
     = Inr [(1, [[1]]), (2, [[1, 1]]), (3, [])]
   \<and> precompute_templates [drum_X, drum_Y, drum_Z] config_2 [(1, [[1]]), (2, [[1, 1]]), (3, [])]
       = Inr (index_XYZ, 6, 0, 6)
   \<and> rounding_exact index_XYZ (length [drum_X, drum_Y, drum_Z])
       (initial_inventory [drum_X, drum_Y, drum_Z])
   \<and> search [drum_X, drum_Y, drum_Z] config_2
       = Inr (Fin (148 / 11), schedule_XYZ,
              \<lparr>evaluated = 6, pruned_infeasible = 0, templates_kept = 6, pruned_bound = 1,
                memo_hits = 10\<rparr>)
   \<and> remaining_after (initial_inventory [drum_X, drum_Y, drum_Z]) schedule_XYZ
       = [(''X'', 0), (''Y'', 0), (''Z'', 0)]
   \<and> list_all (\<lambda>(sid, q). q \<le> ACTIVE_THRESHOLD_L)
       (remaining_after (initial_inventory [drum_X, drum_Y, drum_Z]) schedule_XYZ)"
proof -
  have "remaining_after (initial_inventory [drum_X, drum_Y, drum_Z]) schedule_XYZ
       = [(''X'', 0), (''Y'', 0), (''Z'', 0)]"
    by (simp add: eval_consumption eval_drum)
  with exact_schedule_depletes_inventory [OF rc_XYZ precompute_index_XYZ rounding_exact_XYZ
      search_XYZ]
    rc_XYZ precompute_index_XYZ rounding_exact_XYZ search_XYZ
  show ?thesis by blast
qed

text \<open>
  Claim C4, as stated, fails in two ways.
  \<^item> Inside the invocation on the streams \<open>A\<close> (10.4 L) and \<open>B\<close> (0.6 L) with
    \<open>ratio_sum_max = 2\<close>, the root explores solo \<open>B\<close> first and reaches the state
    \<open>A\<close> = 10.4 L at depth 1, whose pair (cost 1924/825, one phase of 10.4 L) is stored under
    the key \<open>{(A, 10)}\<close>. It then explores the blend (1, 1) and reaches the state
    \<open>A\<close> = 9.8 L at depth 1 with exactly that memo table: the same key, so the pair of the
    other state is returned. From an empty memo table the same inventory at the same depth
    gives cost 1813/825, which is its optimal cost; the optimal cost of the canonical state
    \<open>A\<close> = 10 L is 74/33. The stored value 1924/825 is neither.
  \<^item> On the whole-litre streams \<open>W\<close> (3 L) and \<open>X\<close> (10 L), where the rounding merges no two
    states, with a labour rate of \<open>-200\<close> per hour the root call returns and stores
    -800842/298595, while the optimal cost of the root state is -494/165.
\<close>

theorem memo_rounding_counterexample:
  "search_node config_2 2 index_AB [(''A'', 52 / 5), (''B'', 0)] 1
     (Map.empty, initial_stats 3 0 3)
     = Inr ((Fin (1924 / 825), [phase_A_full]), memo_A, initial_stats 3 0 3)
   \<and> search_node config_2 2 index_AB [(''A'', 49 / 5), (''B'', 0)] 1
       (memo_A, initial_stats 3 0 3)
     = Inr ((Fin (1924 / 825), [phase_A_full]), memo_A,
            (initial_stats 3 0 3)\<lparr>memo_hits := 1\<rparr>)
   \<and> map_sum id (fst \<circ> fst)
       (search_node config_2 2 index_AB [(''A'', 49 / 5), (''B'', 0)] 1
          (Map.empty, initial_stats 3 0 3))
     = Inr (Fin (1813 / 825))
   \<and> exhaustive_cost 2 index_AB [(''A'', 49 / 5), (''B'', 0)] 1 = Fin (1813 / 825)
   \<and> exhaustive_cost 2 index_AB [(''A'', 10), (''B'', 0)] 1 = Fin (74 / 33)
   \<and> memo_A {(''A'', 10)} = Some (Fin (1924 / 825), [phase_A_full])
   \<and> Fin (1813 / 825) < Fin (74 / 33) \<and> Fin (74 / 33) < Fin (1924 / 825)
   \<and> \<not> rounding_exact index_AB 2 [(''A'', 104 / 10), (''B'', 6 / 10)]
   \<and> rounding_exact index_WX 2 [(''W'', 3), (''X'', 10)]
   \<and> map_sum id (fst \<circ> fst)
       (search_node config_neg 2 index_WX [(''W'', 3), (''X'', 10)] 0
          (Map.empty, initial_stats 3 0 3))
     = Inr (Fin (- (800842 / 298595)))
   \<and> exhaustive_cost 2 index_WX [(''W'', 3), (''X'', 10)] 0 = Fin (- (494 / 165))
   \<and> Fin (- (494 / 165)) < Fin (- (800842 / 298595))"
proof -
  have "memo_A {(''A'', 10)} = Some (Fin (1924 / 825), [phase_A_full])"
    by (simp add: memo_A_def)
  moreover have "Fin (1813 / 825) < Fin (74 / 33) \<and> Fin (74 / 33) < Fin (1924 / 825)"
    by simp
  moreover have "Fin (- (494 / 165)) < Fin (- (800842 / 298595))" by simp
  ultimately show ?thesis
    using search_node_A_full search_node_A_hit search_node_A_rest exhaustive_A_rest
      exhaustive_A_canonical rounding_merges_AB rounding_exact_WX search_node_WX exhaustive_WX
    by blast
qed

text \<open>
  Claim C4, amended. The recursive search takes the inventory, the depth and the memo table,
  and no accumulated cost. Within one invocation in which no two reachable states with
  different active parts have the same rounded memo key, over retained templates of
  non-negative cost, at every reachable non-terminal state:
  \<^item> on a memo hit the pair cached under the state's key is returned verbatim, the memo table
    is unchanged and only \<open>memo_hits\<close> is incremented;
  \<^item> every call, with or without hits, returns the pair that the memo-free search returns
    from any inventory with the same active part at any depth within the bound: a function
    solely of the remaining inventory; its cost is the optimal cost of the state (the
    minimum over all phase sequences of the retained templates);
  \<^item> the pair is stored under the state's key, and every value in the memo table after the
    call is, for every reachable non-terminal state with that key, the pair of the memo-free
    search from that state, of that state's optimal cost.
\<close>

theorem exact_memo_pair_of_state:
  assumes wf: "index_wf cfg tbl" and nn: "index_nonneg tbl"
    and d0: "distinct (map fst inv0)" and ln: "length (active_of inv0) \<le> n"
    and ex: "rounding_exact tbl n inv0"
    and re: "reachable tbl n inv0 invt depth" and ne: "active_of invt \<noteq> []"
    and ms: "memo_sound cfg n tbl inv0 memo"
  shows "(\<forall>v. memo (memo_key_of (active_of invt)) = Some v \<longrightarrow>
            search_node cfg n tbl invt depth (memo, stats)
              = Inr (v, memo, stats\<lparr>memo_hits := memo_hits stats + 1\<rparr>))
      \<and> (\<forall>r memo' stats'.
            search_node cfg n tbl invt depth (memo, stats) = Inr (r, memo', stats') \<longrightarrow>
              (\<forall>inv2 d2. distinct (map fst inv2) \<longrightarrow> active_of inv2 = active_of invt \<longrightarrow>
                  length (active_of invt) + d2 \<le> n \<longrightarrow>
                  pure_node cfg n tbl inv2 d2 = Inr r)
            \<and> fst r = exhaustive_cost n tbl invt depth
            \<and> memo' (memo_key_of (active_of invt)) = Some r
            \<and> memo_sound cfg n tbl inv0 memo'
            \<and> (\<forall>k v inv' d'. memo' k = Some v \<longrightarrow> reachable tbl n inv0 inv' d' \<longrightarrow>
                  active_of inv' \<noteq> [] \<longrightarrow> memo_key_of (active_of inv') = k \<longrightarrow>
                  pure_node cfg n tbl inv' d' = Inr v
                  \<and> fst v = exhaustive_cost n tbl inv' d'))"
proof (intro conjI allI impI)
  from reachable_invariant [OF wf d0 re]
  have di: "distinct (map fst invt)"
    and li: "length (active_of invt) + depth \<le> length (active_of inv0)" by simp_all
  from li ln have dep: "length (active_of invt) + depth \<le> n" by simp
  with ne have nd: "\<not> n < depth" by (cases "active_of invt") auto
  {
    fix v
    assume "memo (memo_key_of (active_of invt)) = Some v"
    with ne nd show "search_node cfg n tbl invt depth (memo, stats)
        = Inr (v, memo, stats\<lparr>memo_hits := memo_hits stats + 1\<rparr>)"
      by (simp add: search_node.simps)
  }
  fix r memo' stats'
  assume run: "search_node cfg n tbl invt depth (memo, stats) = Inr (r, memo', stats')"
  from ms have ms': "memo_sound cfg n tbl inv0 (fst (memo, stats))" by simp
  from search_exact(1) [rule_format, OF run wf d0 ln ex re ms']
  have m': "memo_sound cfg n tbl inv0 memo'"
    and p: "pure_node cfg n tbl invt depth = Inr r" by simp_all
  from m' show "memo_sound cfg n tbl inv0 memo'" .
  {
    fix inv2 d2
    assume d2: "distinct (map fst inv2)" and a: "active_of inv2 = active_of invt"
      and l2: "length (active_of invt) + d2 \<le> n"
    from a l2 dep have l: "length (active_of inv2) + d2 \<le> n"
      "length (active_of inv2) + depth \<le> n" by simp_all
    have "pure_node cfg n tbl inv2 d2 = pure_node cfg n tbl inv2 depth"
      by (rule pure_depth_independent(1) [rule_format, OF wf d2 l])
    also have "\<dots> = pure_node cfg n tbl invt depth"
      by (rule pure_active_only(1) [rule_format, OF wf d2 di a])
    finally show "pure_node cfg n tbl inv2 d2 = Inr r" using p by simp
  }
  from pure_is_exhaustive(1) [of cfg n tbl invt depth] p wf nn di
  show "fst r = exhaustive_cost n tbl invt depth" by (cases r) auto
  from run show "memo' (memo_key_of (active_of invt)) = Some r"
    by (cases rule: search_node_cases) (use ne nd in auto)
  {
    fix k v inv' d'
    assume mv: "memo' k = Some v" and r': "reachable tbl n inv0 inv' d'"
      and ne': "active_of inv' \<noteq> []" and k: "memo_key_of (active_of inv') = k"
    from m' [unfolded memo_sound_def, rule_format, OF mv]
    have "\<forall>invt d. reachable tbl n inv0 invt d \<longrightarrow> active_of invt \<noteq> [] \<longrightarrow>
              memo_key_of (active_of invt) = k \<longrightarrow> pure_node cfg n tbl invt d = Inr v"
      by (rule conjunct2)
    from this [rule_format, OF r' ne' k] have pv: "pure_node cfg n tbl inv' d' = Inr v" .
    from reachable_invariant [OF wf d0 r'] have "distinct (map fst inv')" by simp
    with pure_is_exhaustive(1) [of cfg n tbl inv' d'] pv wf nn
    have "fst v = exhaustive_cost n tbl inv' d'" by (cases v) auto
    then show "fst v = exhaustive_cost n tbl inv' d'" .
    from pv show "pure_node cfg n tbl inv' d' = Inr v" .
  }
qed

lemma search_run:
  assumes rc: "ratio_cache_of (length strs) (ratio_sum_max cfg) = Inr rc"
    and pre: "precompute_templates strs cfg rc = Inr (tbl, a, b, c)"
    and s: "search strs cfg = Inr (cst, ps, stats)"
  shows "\<exists>memo'. search_node cfg (length strs) tbl (initial_inventory strs) 0
      (Map.empty, initial_stats a b c) = Inr ((cst, ps), memo', stats)"
proof -
  from s obtain memo' where
    "search_with_memo strs cfg = Inr ((cst, ps), memo', stats)"
    by (auto simp: search_def split: sum.splits prod.splits)
  with rc pre show ?thesis by (auto simp: search_with_memo_unfold)
qed

theorem exact_memo_pair_of_state_witness:
  "index_wf config_2 index_XYZ \<and> index_nonneg index_XYZ
   \<and> distinct (map fst [(''X'', 10 :: real), (''Y'', 20), (''Z'', 30)])
   \<and> length (active_of [(''X'', 10), (''Y'', 20), (''Z'', 30)]) \<le> 3
   \<and> rounding_exact index_XYZ 3 [(''X'', 10), (''Y'', 20), (''Z'', 30)]
   \<and> reachable index_XYZ 3 [(''X'', 10), (''Y'', 20), (''Z'', 30)]
       [(''X'', 10), (''Y'', 20), (''Z'', 30)] 0
   \<and> active_of [(''X'', 10), (''Y'', 20), (''Z'', 30)] \<noteq> []
   \<and> memo_sound config_2 3 index_XYZ [(''X'', 10), (''Y'', 20), (''Z'', 30)] Map.empty
   \<and> (\<exists>memo'.
         search_node config_2 3 index_XYZ [(''X'', 10), (''Y'', 20), (''Z'', 30)] 0
           (Map.empty, initial_stats 6 0 6)
           = Inr ((Fin (148 / 11), schedule_XYZ), memo',
                  \<lparr>evaluated = 6, pruned_infeasible = 0, templates_kept = 6, pruned_bound = 1,
                    memo_hits = 10\<rparr>)
         \<and> memo' (memo_key_of (active_of [(''X'', 10), (''Y'', 20), (''Z'', 30)]))
             = Some (Fin (148 / 11), schedule_XYZ)
         \<and> memo_sound config_2 3 index_XYZ [(''X'', 10), (''Y'', 20), (''Z'', 30)] memo'
         \<and> search_node config_2 3 index_XYZ [(''X'', 10), (''Y'', 20), (''Z'', 30)] 0
             (memo', initial_stats 6 0 6)
             = Inr ((Fin (148 / 11), schedule_XYZ), memo',
                    (initial_stats 6 0 6)\<lparr>memo_hits := memo_hits (initial_stats 6 0 6) + 1\<rparr>))
   \<and> pure_node config_2 3 index_XYZ [(''X'', 10), (''V'', 1 / 4), (''Y'', 20), (''Z'', 30)] 0
       = Inr (Fin (148 / 11), schedule_XYZ)
   \<and> exhaustive_cost 3 index_XYZ [(''X'', 10), (''Y'', 20), (''Z'', 30)] 0 = Fin (148 / 11)"
proof -
  let ?inv = "[(''X'', 10 :: real), (''Y'', 20), (''Z'', 30)]"
  have l: "length [drum_X, drum_Y, drum_Z] = 3" by simp
  have d: "distinct (map fst ?inv)" by simp
  have a: "active_of ?inv = ?inv" by (simp add: active_of_def ACTIVE_THRESHOLD_L_def)
  from a have ln: "length (active_of ?inv) \<le> 3" and ne: "active_of ?inv \<noteq> []" by simp_all
  from rounding_exact_XYZ have ex: "rounding_exact index_XYZ 3 ?inv"
    unfolding l initial_inventory_XYZ .
  have re: "reachable index_XYZ 3 ?inv ?inv 0" by (rule reachable.root)
  have ms: "memo_sound config_2 3 index_XYZ ?inv Map.empty" by (rule memo_sound_empty)
  from search_run [OF rc_XYZ precompute_index_XYZ search_XYZ] obtain memo' where
    run: "search_node config_2 3 index_XYZ ?inv 0 (Map.empty, initial_stats 6 0 6)
           = Inr ((Fin (148 / 11), schedule_XYZ), memo',
                  \<lparr>evaluated = 6, pruned_infeasible = 0, templates_kept = 6, pruned_bound = 1,
                    memo_hits = 10\<rparr>)"
    unfolding l initial_inventory_XYZ by blast
  note t0 = exact_memo_pair_of_state [OF index_XYZ_wf index_XYZ_nonneg d ln ex re ne ms,
      of "initial_stats 6 0 6"]
  from t0 run
  have pn: "\<forall>inv2 d2. distinct (map fst inv2) \<longrightarrow> active_of inv2 = active_of ?inv \<longrightarrow>
                  length (active_of ?inv) + d2 \<le> 3 \<longrightarrow>
                  pure_node config_2 3 index_XYZ inv2 d2 = Inr (Fin (148 / 11), schedule_XYZ)"
    and e: "fst (Fin (148 / 11), schedule_XYZ) = exhaustive_cost 3 index_XYZ ?inv 0"
    and st: "memo' (memo_key_of (active_of ?inv)) = Some (Fin (148 / 11), schedule_XYZ)"
    and ms': "memo_sound config_2 3 index_XYZ ?inv memo'"
    by blast+
  have a2: "active_of [(''X'', 10 :: real), (''V'', 1 / 4), (''Y'', 20), (''Z'', 30)]
      = active_of ?inv"
    by (simp add: active_of_def ACTIVE_THRESHOLD_L_def)
  have d2: "distinct (map fst [(''X'', 10 :: real), (''V'', 1 / 4), (''Y'', 20), (''Z'', 30)])"
    by simp
  from ln have l2: "length (active_of ?inv) + 0 \<le> 3" by simp
  note t1 = exact_memo_pair_of_state [OF index_XYZ_wf index_XYZ_nonneg d ln ex re ne ms',
      of "initial_stats 6 0 6"]
  from t1 st
  have hit: "search_node config_2 3 index_XYZ ?inv 0 (memo', initial_stats 6 0 6)
             = Inr ((Fin (148 / 11), schedule_XYZ), memo',
                    (initial_stats 6 0 6)\<lparr>memo_hits := memo_hits (initial_stats 6 0 6) + 1\<rparr>)"
    by blast
  have p: "pure_node config_2 3 index_XYZ [(''X'', 10), (''V'', 1 / 4), (''Y'', 20), (''Z'', 30)] 0
       = Inr (Fin (148 / 11), schedule_XYZ)"
    by (rule pn [rule_format, OF d2 a2 l2])
  from e have e': "exhaustive_cost 3 index_XYZ ?inv 0 = Fin (148 / 11)" by simp
  from index_XYZ_wf index_XYZ_nonneg d ln ex re ne ms run st ms' hit p e'
  show ?thesis by blast
qed

subsection \<open>The inventory update in IEEE binary64\<close>

text \<open>
  Everywhere else in this theory a Python \<^verbatim>\<open>float\<close> is an exact real. Python computes in
  IEEE binary64: the result of each operation is the exact result rounded to the nearest
  number with a 53-bit significand, ties to the even one. \<open>binary64\<close> is that rounding for a
  real in the normal range (neither overflow nor subnormal numbers are modelled). The two
  functions after it are lines 249-253 and line 272 of \<^verbatim>\<open>search.py\<close> computed that way, on
  the list of the pairs \<^verbatim>\<open>(active[sid], ratio)\<close> of a template's streams.
\<close>

definition binary64 :: "real \<Rightarrow> real" where
  "binary64 x =
     (if x = 0 then 0
      else let e = \<lfloor>log 2 \<bar>x\<bar>\<rfloor> - 52
           in of_int (py_round (x / 2 powr of_int e)) * 2 powr of_int e)"

definition num_batches_binary64 :: "(real \<times> int) list \<Rightarrow> real" where
  "num_batches_binary64 qrs =
     (case map (\<lambda>(q, r). binary64 (q / of_int r)) qrs of
        [] \<Rightarrow> 0 | x # xs \<Rightarrow> fold min xs x)"

definition update_binary64 :: "(real \<times> int) list \<Rightarrow> real list" where
  "update_binary64 qrs =
     (let num_batches = num_batches_binary64 qrs
      in map (\<lambda>(q, r). binary64 (q - binary64 (of_int r * num_batches))) qrs)"

lemma binary64_exponent:
  assumes "2 powr of_int k \<le> \<bar>x\<bar>" and "\<bar>x\<bar> < 2 powr of_int (k + 1)"
  shows "binary64 x = of_int (py_round (x / 2 powr of_int (k - 52))) * 2 powr of_int (k - 52)"
proof -
  from assms(1) have pos: "0 < \<bar>x\<bar>" by (smt (verit) powr_gt_zero)
  then have "x \<noteq> 0" by simp
  moreover from floor_log_eq_powr_iff [of "\<bar>x\<bar>" 2 k] pos assms
  have "\<lfloor>log 2 \<bar>x\<bar>\<rfloor> = k" by simp
  ultimately show ?thesis by (simp add: binary64_def Let_def)
qed

lemma binary64_frac:
  assumes "1 / 2 ^ n \<le> \<bar>x\<bar>" and "\<bar>x\<bar> < 2 / 2 ^ n"
  shows "binary64 x = of_int (py_round (x * 2 ^ (52 + n))) / 2 ^ (52 + n)"
proof -
  have a: "(2 :: real) powr of_int (- int n) = 1 / 2 ^ n"
    by (simp add: powr_minus powr_realpow divide_inverse)
  have "(2 :: real) powr (1 + (- real n)) = 2 powr 1 * 2 powr (- real n)"
    by (rule powr_add)
  then have "(2 :: real) powr of_int (- int n + 1) = 2 powr 1 * 2 powr (- real n)"
    by (simp add: algebra_simps)
  then have b: "(2 :: real) powr of_int (- int n + 1) = 2 / 2 ^ n"
    by (simp add: powr_minus powr_realpow divide_inverse)
  have "(2 :: real) powr of_int (- int n - 52) = 2 powr (- real (52 + n))"
    by (simp add: algebra_simps)
  then have c: "(2 :: real) powr of_int (- int n - 52) = 1 / 2 ^ (52 + n)"
    by (simp only: powr_minus powr_realpow divide_inverse)
  from binary64_exponent [of "- int n" x] assms show ?thesis
    unfolding a b c by simp
qed

lemma binary64_mid:
  assumes "2 ^ n \<le> \<bar>x\<bar>" and "\<bar>x\<bar> < 2 * 2 ^ n" and "n \<le> 52"
  shows "binary64 x = of_int (py_round (x * 2 ^ (52 - n))) / 2 ^ (52 - n)"
proof -
  have a: "(2 :: real) powr of_int (int n) = 2 ^ n" by (simp add: powr_realpow)
  have "(2 :: real) powr of_int (int n + 1) = 2 powr real (Suc n)"
    by (simp add: algebra_simps)
  then have b: "(2 :: real) powr of_int (int n + 1) = 2 * 2 ^ n"
    by (simp only: powr_realpow) simp
  from assms(3) have "(2 :: real) powr of_int (int n - 52) = 2 powr (- real (52 - n))"
    by (simp add: of_nat_diff)
  then have c: "(2 :: real) powr of_int (int n - 52) = 1 / 2 ^ (52 - n)"
    by (simp only: powr_minus powr_realpow divide_inverse)
  from binary64_exponent [of "int n" x] assms(1,2) show ?thesis
    unfolding a b c by simp
qed

lemma binary64_big:
  assumes "2 ^ n \<le> \<bar>x\<bar>" and "\<bar>x\<bar> < 2 * 2 ^ n" and "52 \<le> n"
  shows "binary64 x = of_int (py_round (x / 2 ^ (n - 52))) * 2 ^ (n - 52)"
proof -
  have a: "(2 :: real) powr of_int (int n) = 2 ^ n" by (simp add: powr_realpow)
  have "(2 :: real) powr of_int (int n + 1) = 2 powr real (Suc n)"
    by (simp add: algebra_simps)
  then have b: "(2 :: real) powr of_int (int n + 1) = 2 * 2 ^ n"
    by (simp only: powr_realpow) simp
  from assms(3) have "(2 :: real) powr of_int (int n - 52) = 2 powr real (n - 52)"
    by (simp add: of_nat_diff)
  then have c: "(2 :: real) powr of_int (int n - 52) = 2 ^ (n - 52)"
    by (simp only: powr_realpow)
  from binary64_exponent [of "int n" x] assms(1,2) show ?thesis
    unfolding a b c by simp
qed

text \<open>The double written \<^verbatim>\<open>0.9\<close>, and the steps of \<^verbatim>\<open>0.9 - 7 * (0.9 / 7)\<close>.\<close>

lemma binary64_09: "binary64 (9 / 10) = 8106479329266893 / 2 ^ 53"
  by (subst binary64_frac [where n = 1]) (simp_all add: py_round_def)

lemma binary64_09_div_7:
  "binary64 (8106479329266893 / 2 ^ 53 / 7) = 4632273902438225 / 2 ^ 55"
  by (subst binary64_frac [where n = 3]) (simp_all add: py_round_def)

lemma binary64_7_times:
  "binary64 (7 * (4632273902438225 / 2 ^ 55)) = 8106479329266894 / 2 ^ 53"
  by (subst binary64_frac [where n = 1]) (simp_all add: py_round_def)

lemma binary64_residual:
  "binary64 (8106479329266893 / 2 ^ 53 - 8106479329266894 / 2 ^ 53) = - (1 / 2 ^ 53)"
  by (subst binary64_frac [where n = 53]) (simp_all add: py_round_def)

lemma binary64_5: "binary64 5 = 5"
  by (subst binary64_mid [where n = 2]) (simp_all add: py_round_def)

lemma binary64_batches:
  "binary64 (4632273902438225 / 2 ^ 55) = 4632273902438225 / 2 ^ 55"
  by (subst binary64_frac [where n = 3]) (simp_all add: py_round_def)

lemma binary64_5_minus:
  "binary64 (5 - 4632273902438225 / 2 ^ 55) = 5484740974761925 / 2 ^ 50"
  by (subst binary64_mid [where n = 2]) (simp_all add: py_round_def)

text \<open>The steps of \<^verbatim>\<open>q - 3 * (q / 3)\<close> for \<^verbatim>\<open>q = 281000000000000992.0\<close>, beside \<open>2 ^ 60\<close>.\<close>

lemma binary64_third:
  "binary64 (281000000000000992 / 3) = 93666666666666992"
  by (subst binary64_big [where n = 56]) (simp_all add: py_round_def)

lemma binary64_3_times:
  "binary64 (3 * 93666666666666992) = 281000000000000960"
  by (subst binary64_big [where n = 57]) (simp_all add: py_round_def)

lemma binary64_32: "binary64 32 = 32"
  by (subst binary64_mid [where n = 5]) (simp_all add: py_round_def)

lemma binary64_third_again: "binary64 93666666666666992 = 93666666666666992"
  by (subst binary64_big [where n = 56]) (simp_all add: py_round_def)

lemma binary64_2_60: "binary64 (2 ^ 60) = 2 ^ 60"
  by (subst binary64_big [where n = 60]) (simp_all add: py_round_def)

lemma binary64_2_60_minus:
  "binary64 (2 ^ 60 - 93666666666666992) = 1059254837940179968"
  by (subst binary64_big [where n = 59]) (simp_all add: py_round_def)

lemma double_09: "binary64 (9 / 10) = 8106479329266893 / 9007199254740992"
  using binary64_09 by simp

lemma double_09_div_7: "binary64 (8106479329266893 / 63050394783186944)
    = 4632273902438225 / 36028797018963968"
  using binary64_09_div_7 by simp

lemma double_2_60: "binary64 1152921504606846976 = 1152921504606846976"
  using binary64_2_60 by simp

lemma double_7_times: "binary64 (32425917317067575 / 36028797018963968)
    = 4053239664633447 / 4503599627370496"
  using binary64_7_times by simp

lemma double_batches: "binary64 (4632273902438225 / 36028797018963968)
    = 4632273902438225 / 36028797018963968"
  using binary64_batches by simp

lemma double_3_times: "binary64 281000000000000976 = 281000000000000960"
  using binary64_3_times by simp

lemma double_residual: "binary64 (- (1 / 9007199254740992)) = - (1 / 9007199254740992)"
  using binary64_residual by simp

lemma double_5_minus: "binary64 (175511711192381615 / 36028797018963968)
    = 5484740974761925 / 1125899906842624"
  using binary64_5_minus by simp

lemma double_2_60_minus: "binary64 1059254837940179984 = 1059254837940179968"
  using binary64_2_60_minus by simp

lemma update_binary64_small:
  "update_binary64 [(binary64 (9 / 10), 7), (5, 1)]
     = [- (1 / 2 ^ 53), 5484740974761925 / 2 ^ 50]"
  by (simp add: update_binary64_def num_batches_binary64_def Let_def double_09 double_09_div_7 double_7_times double_batches double_residual double_5_minus
      binary64_5)

lemma update_binary64_large:
  "update_binary64 [(281000000000000992, 3), (2 ^ 60, 1)] = [32, 1059254837940179968]"
  by (simp add: update_binary64_def num_batches_binary64_def Let_def double_2_60 double_3_times double_2_60_minus binary64_third
      binary64_third_again binary64_32)

text \<open>
  Claim C10, as stated, in the arithmetic the code runs in.
  \<^item> A blend at ratio (7, 1) of a stream of \<^verbatim>\<open>0.9\<close> L with one of 5 L: the batch count is
    \<^verbatim>\<open>0.9 / 7\<close>, and \<^verbatim>\<open>0.9 - 7 * (0.9 / 7)\<close> is \<open>-2\<^sup>-\<^sup>5\<^sup>3\<close> (about -1.1e-16). The updated
    inventory has a negative component and no participating stream is left with exactly
    zero.
  \<^item> A blend at ratio (3, 1) of 281000000000000992 L with \<open>2\<^sup>6\<^sup>0\<close> L: the minimizing
    stream is left with 32 L. Both streams are still above the 0.5 L threshold, so the set
    of active streams has not shrunk.
\<close>

theorem binary64_update_counterexample:
  "update_binary64 [(binary64 (9 / 10), 7), (5, 1)]
     = [- (1 / 2 ^ 53), 5484740974761925 / 2 ^ 50]
   \<and> - (1 / 2 ^ 53) < (0 :: real)
   \<and> num_batches_binary64 [(281000000000000992, 3), (2 ^ 60, 1)] = 93666666666666992
   \<and> update_binary64 [(281000000000000992, 3), (2 ^ 60, 1)] = [32, 1059254837940179968]
   \<and> ACTIVE_THRESHOLD_L < 32 \<and> ACTIVE_THRESHOLD_L < 1059254837940179968"
proof -
  have "num_batches_binary64 [(281000000000000992, 3), (2 ^ 60, 1)] = 93666666666666992"
    by (simp add: num_batches_binary64_def double_2_60 binary64_third)
  moreover have "- (1 / 2 ^ 53) < (0 :: real)" by simp
  moreover have "ACTIVE_THRESHOLD_L < 32 \<and> ACTIVE_THRESHOLD_L < 1059254837940179968"
    by (simp add: ACTIVE_THRESHOLD_L_def)
  ultimately show ?thesis using update_binary64_small update_binary64_large by blast
qed

end
